theory Spec2Isabelle
  imports Main "HOL-Library.AList" "HOL-Library.Sublist" "HOL-Library.Multiset"
    "HOL-Library.Char_ord" "HOL-Library.List_Lexorder"
begin

text \<open>
  A shallow embedding of \<open>frontend/src/state/ReactiveS3.ts\<close>: the topic truncation, the
  index that mirrors the store (\<open>ReactiveIndex\<close>), the cursor over it (\<open>ReactiveCursor\<close>)
  and the debounced JSON document (\<open>ReactiveJsonFile\<close>). Mutation is explicit state
  passing, a listener call is an entry of a trace, and the answers of the store, the
  socket and the timers are inputs. A private member \<open>_name\<close> of the source is \<open>name\<close>
  here.
\<close>

section \<open>Strings\<close>

text \<open>
  A TypeScript string is modelled as a \<^typ>\<open>string\<close>: the list of its code units.
  \<open>s.length\<close> is \<^const>\<open>length\<close>, \<open>s.substring(n)\<close> is \<^term>\<open>drop n s\<close>,
  \<open>s.substring(0, n)\<close> is \<^term>\<open>take n s\<close> and \<open>a + b\<close> is \<^term>\<open>a @ b\<close>.
\<close>

definition startsWith :: "string \<Rightarrow> string \<Rightarrow> bool" where
  "startsWith s p = prefix p s"

definition endsWith :: "string \<Rightarrow> string \<Rightarrow> bool" where
  "endsWith s p = suffix p s"

text \<open>\<open>s.split(c)\<close> for a one-character separator: never empty, \<open>"".split("/")\<close> is \<open>[""]\<close>.\<close>

fun split :: "char \<Rightarrow> string \<Rightarrow> string list" where
  "split c [] = [[]]"
| "split c (x # xs) =
     (if x = c then [] # split c xs
      else (case split c xs of [] \<Rightarrow> [[x]] | s # ss \<Rightarrow> (x # s) # ss))"

text \<open>The string a loop builds that appends the segments with the separator between them.\<close>

fun join :: "char \<Rightarrow> string list \<Rightarrow> string" where
  "join c [] = []"
| "join c [s] = s"
| "join c (s # t # ss) = s @ c # join c (t # ss)"

section \<open>Topic truncation\<close>

definition MAX_TOPIC_LEN :: nat where
  "MAX_TOPIC_LEN = 80"

text \<open>
  The \<open>while\<close> loop of \<open>makeTopicPubSubSafe\<close>: the first argument holds the segments from
  \<open>segmentCursor\<close> on, the second is \<open>segmentCursor\<close>, the third is \<open>reconstructed\<close>.
\<close>

fun topicLoop :: "string list \<Rightarrow> nat \<Rightarrow> string \<Rightarrow> string" where
  "topicLoop [] segmentCursor reconstructed = reconstructed"
| "topicLoop (seg # rest) segmentCursor reconstructed =
     (let proposedNext =
            (if segmentCursor > 0 then reconstructed @ ''/'' else reconstructed) @ seg
      in if length proposedNext < MAX_TOPIC_LEN
         then topicLoop rest (Suc segmentCursor) proposedNext
         else reconstructed)"

definition makeTopicPubSubSafe :: "string \<Rightarrow> string" where
  "makeTopicPubSubSafe path =
     (if length path > MAX_TOPIC_LEN then
        (let segments = split CHR ''/'' path in
         if length (hd segments) > MAX_TOPIC_LEN then take MAX_TOPIC_LEN (hd segments)
         else topicLoop segments 0 [])
      else path)"

text \<open>A topic of three long segments under the public prefix, 107 characters long.\<close>

definition longTopic :: string where
  "longTopic = ''/UPDATE/public/'' @ replicate 30 CHR ''a'' @ ''/'' @ replicate 30 CHR ''b'' @
     ''/'' @ replicate 30 CHR ''c''"

definition ensurePathEndsWithSlash :: "string \<Rightarrow> string" where
  "ensurePathEndsWithSlash path =
     (if endsWith path ''/'' \<or> length path = 0 then path else path @ ''/'')"


section \<open>Maps and file records\<close>

text \<open>
  A JavaScript \<open>Map<string, V>\<close> is an association list in insertion order whose keys are
  pairwise distinct: \<open>m.get(k)\<close> is \<^term>\<open>map_of m k\<close>, \<open>m.set(k, v)\<close> is
  \<^term>\<open>AList.update k v m\<close> (the value is replaced in place, a new key goes to the end),
  \<open>m.delete(k)\<close> is \<^term>\<open>AList.delete k m\<close>, and \<open>m.forEach\<close> is a \<^const>\<open>fold\<close>
  over the list.
\<close>

type_synonym 'v jsmap = "(string \<times> 'v) list"

text \<open>
  \<open>ReactiveFileMetadata\<close>. A \<open>Date\<close> is its time value in epoch milliseconds (invalid
  dates are left out), a size is a natural number of bytes.
\<close>

record ReactiveFileMetadata =
  key :: string
  lastModified :: int
  size_bytes :: nat

text \<open>
  A listener is a closure, compared by identity (\<open>indexOf\<close>): here an identifier. Calling
  one is recorded in the trace \<open>calls\<close> of the index, oldest call first.
\<close>

type_synonym listener = nat

datatype call =
    MetadataCall listener "ReactiveFileMetadata option"
  | ChildrenCall listener "ReactiveFileMetadata jsmap"
  | NetworkErrorCall listener "string list"
  | LoadingCall listener bool

datatype level = Protected | Public

record ReactiveIndex =
  files :: "ReactiveFileMetadata jsmap"
  level :: level
  globalPrefix :: string
  metadataListeners :: "listener list jsmap"
  childrenListeners :: "listener list jsmap"
  childrenLastNotified :: "ReactiveFileMetadata jsmap jsmap"
  loading :: bool
  loadingListeners :: "listener list"
  networkErrors :: "string jsmap"
  networkErrorListeners :: "listener list"
  calls :: "call list"

text \<open>The index as its field initialisers leave it (no network setup).\<close>

definition newIndex :: "level \<Rightarrow> ReactiveIndex" where
  "newIndex lv =
     \<lparr>files = [], level = lv, globalPrefix = [], metadataListeners = [],
      childrenListeners = [], childrenLastNotified = [], loading = True,
      loadingListeners = [], networkErrors = [], networkErrorListeners = [], calls = []\<rparr>"

section \<open>The index: queries and listener registries\<close>

definition getMetadata :: "ReactiveIndex \<Rightarrow> string \<Rightarrow> ReactiveFileMetadata option" where
  "getMetadata idx path = map_of (files idx) path"

definition getChildren :: "ReactiveIndex \<Rightarrow> string \<Rightarrow> ReactiveFileMetadata jsmap" where
  "getChildren idx path0 =
     (let path = (if path0 \<noteq> [] \<and> \<not> endsWith path0 ''/'' then path0 @ ''/'' else path0)
      in fold (\<lambda>(k, file) children.
                 if startsWith k path \<and> k \<noteq> path
                 then AList.update (drop (length path) k) file children
                 else children)
           (files idx) [])"

definition addListener :: "string \<Rightarrow> listener \<Rightarrow> listener list jsmap \<Rightarrow> listener list jsmap" where
  "addListener path l m =
     (let m1 = (if map_of m path = None then AList.update path [] m else m)
      in case map_of m1 path of
           None \<Rightarrow> m1
         | Some ls \<Rightarrow> AList.update path (ls @ [l]) m1)"

text \<open>\<open>indexOf\<close> and \<open>splice(index, 1)\<close> take out the first occurrence.\<close>

definition removeListener :: "string \<Rightarrow> listener \<Rightarrow> listener list jsmap \<Rightarrow> listener list jsmap" where
  "removeListener path l m =
     (case map_of m path of
        None \<Rightarrow> m
      | Some ls \<Rightarrow> if l \<in> set ls then AList.update path (remove1 l ls) m else m)"

definition addMetadataListener :: "string \<Rightarrow> listener \<Rightarrow> ReactiveIndex \<Rightarrow> ReactiveIndex" where
  "addMetadataListener path onUpdate idx =
     idx\<lparr>metadataListeners := addListener path onUpdate (metadataListeners idx)\<rparr>"

definition removeMetadataListener :: "string \<Rightarrow> listener \<Rightarrow> ReactiveIndex \<Rightarrow> ReactiveIndex" where
  "removeMetadataListener path onUpdate idx =
     idx\<lparr>metadataListeners := removeListener path onUpdate (metadataListeners idx)\<rparr>"

definition addChildrenListener :: "string \<Rightarrow> listener \<Rightarrow> ReactiveIndex \<Rightarrow> ReactiveIndex" where
  "addChildrenListener path onChange idx =
     idx\<lparr>childrenListeners := addListener path onChange (childrenListeners idx)\<rparr>"

definition removeChildrenListener :: "string \<Rightarrow> listener \<Rightarrow> ReactiveIndex \<Rightarrow> ReactiveIndex" where
  "removeChildrenListener path onChange idx =
     idx\<lparr>childrenListeners := removeListener path onChange (childrenListeners idx)\<rparr>"

section \<open>The index: merge primitives\<close>

text \<open>
  \<open>[...m].sort()\<close>: the entries \<open>[key, value]\<close> sorted by the default comparison, which
  compares the elements' string conversions \<open>key + ",[object Object]"\<close> by code units; the
  sort is stable.
\<close>

definition sortEntries :: "'v jsmap \<Rightarrow> 'v jsmap" where
  "sortEntries m = sort_key (\<lambda>(k, v). k @ '',[object Object]'') m"

text \<open>
  One round of the \<open>forEach\<close> of \<open>_updateChildListeners\<close>, at the registry entry
  \<open>k\<close> (the source's \<open>key\<close>). The two \<open>JSON.stringify\<close>
  texts are compared as the sorted entry lists they print: on entries of a key and a
  record of a key, a valid date and a size the printing is one-to-one.
\<close>

definition updateChildListenersAt ::
  "string \<Rightarrow> listener list \<Rightarrow> ReactiveIndex \<Rightarrow> ReactiveIndex" where
  "updateChildListenersAt k listeners idx =
     (let children = getChildren idx k;
          lastNotified = (case map_of (childrenLastNotified idx) k of
                            None \<Rightarrow> [] | Some m \<Rightarrow> m);
          idx1 = (if sortEntries lastNotified \<noteq> sortEntries children
                  then idx\<lparr>calls := calls idx @ map (\<lambda>l. ChildrenCall l children) listeners\<rparr>
                  else idx)
      in idx1\<lparr>childrenLastNotified := AList.update k children (childrenLastNotified idx1)\<rparr>)"

definition updateChildListeners :: "ReactiveIndex \<Rightarrow> ReactiveIndex" where
  "updateChildListeners idx =
     fold (\<lambda>(k, listeners). updateChildListenersAt k listeners) (childrenListeners idx) idx"

definition deleteFileInIndex :: "string \<Rightarrow> ReactiveIndex \<Rightarrow> ReactiveIndex" where
  "deleteFileInIndex path idx =
     (let idx1 = idx\<lparr>files := AList.delete path (files idx)\<rparr>;
          existListeners = (case map_of (metadataListeners idx1) path of
                              None \<Rightarrow> [] | Some ls \<Rightarrow> ls);
          idx2 = idx1\<lparr>calls := calls idx1 @ map (\<lambda>l. MetadataCall l None) existListeners\<rparr>
      in updateChildListeners idx2)"

definition updateFileInIndex :: "ReactiveFileMetadata \<Rightarrow> ReactiveIndex \<Rightarrow> ReactiveIndex" where
  "updateFileInIndex file idx =
     (let existingFile = map_of (files idx) (key file) in
      if (case existingFile of
            None \<Rightarrow> True
          | Some existing \<Rightarrow> lastModified existing < lastModified file)
      then
        (let idx1 = idx\<lparr>files := AList.update (key file) file (files idx)\<rparr>;
             updateListeners = (case map_of (metadataListeners idx1) (key file) of
                                  None \<Rightarrow> [] | Some ls \<Rightarrow> ls);
             idx2 = idx1\<lparr>calls := calls idx1 @ map (\<lambda>l. MetadataCall l (Some file)) updateListeners\<rparr>
         in updateChildListeners idx2)
      else idx)"

definition onReceivedPubSubUpdate :: "ReactiveFileMetadata \<Rightarrow> ReactiveIndex \<Rightarrow> ReactiveIndex" where
  "onReceivedPubSubUpdate file idx = updateFileInIndex file idx"

definition onReceivedPubSubDelete :: "string \<Rightarrow> ReactiveIndex \<Rightarrow> ReactiveIndex" where
  "onReceivedPubSubDelete k idx = deleteFileInIndex k idx"

subsection \<open>Notions used to state the facts\<close>

text \<open>
  What the spec's children invariant says \<open>getChildren\<close> returns, word for word: the
  entries whose keys start with \<open>p + "/"\<close>, \<open>p\<close> itself excluded, re-keyed by the suffix
  after that prefix.
\<close>

definition getChildrenSpec :: "ReactiveFileMetadata jsmap \<Rightarrow> string \<Rightarrow> ReactiveFileMetadata jsmap" where
  "getChildrenSpec fs p =
     map (\<lambda>(k, f). (drop (length (p @ ''/'')) k, f))
       (filter (\<lambda>(k, f). startsWith k (p @ ''/'') \<and> k \<noteq> p) fs)"

text \<open>The prefix \<open>getChildren\<close> matches keys against: its normalised \<open>path\<close>.\<close>

definition childPrefix :: "string \<Rightarrow> string" where
  "childPrefix p = (if p \<noteq> [] \<and> \<not> endsWith p ''/'' then p @ ''/'' else p)"

text \<open>The three files of the spec's children example.\<close>

definition exampleIndex :: ReactiveIndex where
  "exampleIndex = (newIndex Public)\<lparr>files :=
     [(''a/x.txt'', \<lparr>key = ''a/x.txt'', lastModified = 1000, size_bytes = 10\<rparr>),
      (''a/y.txt'', \<lparr>key = ''a/y.txt'', lastModified = 2000, size_bytes = 20\<rparr>),
      (''b.txt'', \<lparr>key = ''b.txt'', lastModified = 3000, size_bytes = 30\<rparr>)]\<rparr>"

text \<open>The guard of \<open>_updateFileInIndex\<close>: nothing stored, or the stored record strictly older.\<close>

definition accepts :: "ReactiveFileMetadata \<Rightarrow> ReactiveIndex \<Rightarrow> bool" where
  "accepts file idx =
     (case map_of (files idx) (key file) of
        None \<Rightarrow> True
      | Some existing \<Rightarrow> lastModified existing < lastModified file)"

text \<open>Three versions of one file, with increasing timestamps.\<close>

definition fileV1 :: ReactiveFileMetadata where
  "fileV1 = \<lparr>key = ''a/x.txt'', lastModified = 1000, size_bytes = 10\<rparr>"
definition fileV2 :: ReactiveFileMetadata where
  "fileV2 = \<lparr>key = ''a/x.txt'', lastModified = 2000, size_bytes = 20\<rparr>"
definition fileV3 :: ReactiveFileMetadata where
  "fileV3 = \<lparr>key = ''a/x.txt'', lastModified = 3000, size_bytes = 30\<rparr>"

text \<open>The snapshot a children-listener path was last compared against: none yet is the empty map.\<close>

definition lastNotifiedOf :: "ReactiveIndex \<Rightarrow> string \<Rightarrow> ReactiveFileMetadata jsmap" where
  "lastNotifiedOf idx p =
     (case map_of (childrenLastNotified idx) p of None \<Rightarrow> [] | Some m \<Rightarrow> m)"

text \<open>
  The children-listener calls a mutation owes: for every registered path whose children,
  as a set of entries, differ from the snapshot last compared, one call of each of its
  listeners with the new children.
\<close>

definition childrenNotifications :: "ReactiveIndex \<Rightarrow> call list" where
  "childrenNotifications idx =
     concat (map (\<lambda>(p, ls).
        if set (lastNotifiedOf idx p) \<noteq> set (getChildren idx p)
        then map (\<lambda>l. ChildrenCall l (getChildren idx p)) ls else [])
      (childrenListeners idx))"

text \<open>The maps of an index have pairwise distinct keys, as every JavaScript \<open>Map\<close> has.\<close>

definition wellFormed :: "ReactiveIndex \<Rightarrow> bool" where
  "wellFormed idx \<longleftrightarrow>
     distinct (map fst (files idx)) \<and>
     distinct (map fst (childrenListeners idx)) \<and>
     distinct (map fst (childrenLastNotified idx)) \<and>
     list_all (\<lambda>(p, m). distinct (map fst m)) (childrenLastNotified idx)"

text \<open>The calls owed at one entry of the children-listener registry.\<close>

definition notifyAt :: "ReactiveIndex \<Rightarrow> string \<times> listener list \<Rightarrow> call list" where
  "notifyAt idx = (\<lambda>(p, ls).
      if set (lastNotifiedOf idx p) \<noteq> set (getChildren idx p)
      then map (\<lambda>l. ChildrenCall l (getChildren idx p)) ls else [])"

text \<open>
  The listener scenario of the spec: listener \<open>7\<close> registered on \<open>a\<close>, then the first
  version of \<open>a/x.txt\<close> merged.
\<close>

definition listenerIndex :: ReactiveIndex where
  "listenerIndex = updateFileInIndex fileV1 (addChildrenListener ''a'' 7 (newIndex Public))"

section \<open>JSON documents\<close>

text \<open>
  A value of type \<open>any\<close>. \<open>x == null\<close> holds for \<open>null\<close> and \<open>undefined\<close> and for nothing
  else; \<open>Map.get\<close> of an absent key is \<open>undefined\<close>.
\<close>

datatype jsvalue =
    Undefined | Null | Bool bool | Num int | Str string
  | Arr "jsvalue list" | Obj "(string \<times> jsvalue) list"

text \<open>
  \<open>ReactiveJsonFile\<close>. Its \<open>path\<close> is the field \<open>jsonPath\<close>, its \<open>values\<close> the field \<open>valueMap\<close>; the owning cursor is
  passed to the operations that read it. \<open>pendingTimeout\<close> is a timer handle or \<open>null\<close>.
\<close>

record ReactiveJsonFile =
  jsonPath :: string
  valueMap :: "jsvalue jsmap"
  pendingTimeout :: "nat option"
  changeListeners :: "listener list"

definition getAttribute :: "string \<Rightarrow> jsvalue \<Rightarrow> ReactiveJsonFile \<Rightarrow> jsvalue" where
  "getAttribute k defaultValue file =
     (let value = (case map_of (valueMap file) k of None \<Rightarrow> Undefined | Some v \<Rightarrow> v)
      in if value = Null \<or> value = Undefined then defaultValue else value)"

text \<open>
  The text \<open>JSON.stringify\<close> prints, as the tree it denotes: an object lists its
  properties in the order they are printed.
\<close>

datatype json =
    JNull | JBool bool | JNum int | JStr string
  | JArr "json list" | JObj "(string \<times> json) list"

text \<open>
  How \<open>JSON.stringify\<close> prints a value: \<open>undefined\<close> has no text, so a property with
  that value is left out of its object and an array element with that value is printed
  as \<open>null\<close>. An object value \<open>Obj\<close> lists its properties in its own property order.
\<close>

primrec stringify :: "jsvalue \<Rightarrow> json option" where
  "stringify Undefined = None"
| "stringify Null = Some JNull"
| "stringify (Bool b) = Some (JBool b)"
| "stringify (Num n) = Some (JNum n)"
| "stringify (Str s) = Some (JStr s)"
| "stringify (Arr xs) =
     Some (JArr (map (\<lambda>j. case j of None \<Rightarrow> JNull | Some j' \<Rightarrow> j') (map stringify xs)))"
| "stringify (Obj es) =
     Some (JObj (List.map_filter (\<lambda>(k, j). map_option (Pair k) j)
                   (map (map_prod id stringify) es)))"

text \<open>\<open>JSON.stringify(object)\<close> for an object given by its properties in property order.\<close>

definition stringifyObject :: "(string \<times> jsvalue) list \<Rightarrow> json" where
  "stringifyObject object =
     JObj (List.map_filter (\<lambda>(k, v). map_option (Pair k) (stringify v)) object)"

text \<open>
  The property order of a JavaScript object: the keys that are array indices (canonical
  decimal numerals up to \<open>2^32 - 2\<close>) come first, in ascending numeric order, then the
  other keys in the order they were created.
\<close>

definition isDigit :: "char \<Rightarrow> bool" where
  "isDigit c \<longleftrightarrow> (48 :: int) \<le> of_char c \<and> of_char c \<le> (57 :: int)"

definition decimal :: "string \<Rightarrow> int" where
  "decimal k = fold (\<lambda>c n. 10 * n + (of_char c - 48)) k 0"

definition arrayIndex :: "string \<Rightarrow> int option" where
  "arrayIndex k =
     (if k \<noteq> [] \<and> list_all isDigit k \<and> (k = ''0'' \<or> hd k \<noteq> CHR ''0'') \<and>
         decimal k \<le> 4294967294
      then Some (decimal k) else None)"

text \<open>Whether a property comes before a new array-index property \<open>n\<close>.\<close>

definition indexBefore :: "int \<Rightarrow> string \<times> jsvalue \<Rightarrow> bool" where
  "indexBefore n = (\<lambda>(k', v'). case arrayIndex k' of None \<Rightarrow> False | Some m \<Rightarrow> m < n)"

text \<open>
  \<open>object[k] = v\<close> on an object given by its properties in property order: an existing
  property keeps its place, a new one goes to its place in the property order.
\<close>

definition objectSet :: "string \<Rightarrow> jsvalue \<Rightarrow> (string \<times> jsvalue) list \<Rightarrow> (string \<times> jsvalue) list" where
  "objectSet k v object =
     (if map_of object k \<noteq> None then AList.update k v object
      else case arrayIndex k of
             None \<Rightarrow> object @ [(k, v)]
           | Some n \<Rightarrow>
               takeWhile (indexBefore n) object @ (k, v) # dropWhile (indexBefore n) object)"

text \<open>What a document does that can be seen from outside, in the order it does it.\<close>

datatype docAction = UploadChild string json | ChangeListenerCall listener

text \<open>
  A document together with the event loop: the clock in milliseconds, the active
  timeouts (handle and due time, in the order they were set), the next handle
  \<open>setTimeout\<close> gives out, the number of \<open>uploadChild\<close> promises not yet settled (each
  carries the \<open>then\<close> that calls the change listeners), and the trace of the
  \<open>uploadChild(path, json)\<close> requests and change-listener calls made so far.
\<close>

record JsonFileWorld =
  doc :: ReactiveJsonFile
  now :: nat
  timers :: "(nat \<times> nat) list"
  nextHandle :: nat
  inflight :: nat
  trace :: "docAction list"

definition clearTimeout :: "nat \<Rightarrow> JsonFileWorld \<Rightarrow> JsonFileWorld" where
  "clearTimeout h w = w\<lparr>timers := filter (\<lambda>(h', due). h' \<noteq> h) (timers w)\<rparr>"

text \<open>\<open>setTimeout(callback, delay)\<close>: the timer is due \<open>delay\<close> after now; the result is its handle.\<close>

definition setTimeout :: "nat \<Rightarrow> JsonFileWorld \<Rightarrow> nat \<times> JsonFileWorld" where
  "setTimeout delay w =
     (nextHandle w,
      w\<lparr>timers := timers w @ [(nextHandle w, now w + delay)], nextHandle := Suc (nextHandle w)\<rparr>)"

definition restartUploadTimer :: "JsonFileWorld \<Rightarrow> JsonFileWorld" where
  "restartUploadTimer w =
     (let w1 = (case pendingTimeout (doc w) of
                  Some h \<Rightarrow> (clearTimeout h w)\<lparr>doc := (doc w)\<lparr>pendingTimeout := None\<rparr>\<rparr>
                | None \<Rightarrow> w);
          (h, w2) = setTimeout 500 w1
      in w2\<lparr>doc := (doc w2)\<lparr>pendingTimeout := Some h\<rparr>\<rparr>)"

definition setAttribute :: "string \<Rightarrow> jsvalue \<Rightarrow> JsonFileWorld \<Rightarrow> JsonFileWorld" where
  "setAttribute k v w =
     restartUploadTimer (w\<lparr>doc := (doc w)\<lparr>valueMap := AList.update k v (valueMap (doc w))\<rparr>\<rparr>)"

text \<open>The object the timer callback fills with \<open>object[k] = v\<close> for every entry of the map.\<close>

definition toObject :: "jsvalue jsmap \<Rightarrow> (string \<times> jsvalue) list" where
  "toObject vals = fold (\<lambda>(k, v) object. objectSet k v object) vals []"

text \<open>
  The callback given to \<open>setTimeout\<close>: it fills the object, prints it, calls
  \<open>uploadChild\<close>, whose promise is now in flight with the \<open>then\<close> attached, and clears
  \<open>pendingTimeout\<close>.
\<close>

definition uploadCallback :: "JsonFileWorld \<Rightarrow> JsonFileWorld" where
  "uploadCallback w =
     (let object = toObject (valueMap (doc w));
          json = stringifyObject object
      in w\<lparr>trace := trace w @ [UploadChild (jsonPath (doc w)) json],
           inflight := Suc (inflight w),
           doc := (doc w)\<lparr>pendingTimeout := None\<rparr>\<rparr>)"

text \<open>
  An \<open>uploadChild\<close> promise in flight settles. When it resolves, its \<open>then\<close> runs and
  calls every change listener; when it rejects, nothing is attached to run and no
  listener is called. A promise that never settles gives no such event.
\<close>

definition uploadResolved :: "JsonFileWorld \<Rightarrow> JsonFileWorld" where
  "uploadResolved w =
     (if inflight w = 0 then w
      else w\<lparr>inflight := inflight w - 1,
             trace := trace w @ map ChangeListenerCall (changeListeners (doc w))\<rparr>)"

definition uploadRejected :: "JsonFileWorld \<Rightarrow> JsonFileWorld" where
  "uploadRejected w = (if inflight w = 0 then w else w\<lparr>inflight := inflight w - 1\<rparr>)"

text \<open>
  The event loop lets \<open>d\<close> milliseconds pass: every timeout due by then fires, in the
  order the timeouts were set, unless it was cleared meanwhile. No timeout fires early.
\<close>

definition fireTimer :: "nat \<times> nat \<Rightarrow> JsonFileWorld \<Rightarrow> JsonFileWorld" where
  "fireTimer t w =
     (if t \<in> set (timers w) then uploadCallback (w\<lparr>timers := remove1 t (timers w)\<rparr>) else w)"

definition elapse :: "nat \<Rightarrow> JsonFileWorld \<Rightarrow> JsonFileWorld" where
  "elapse d w =
     fold fireTimer (filter (\<lambda>(h, due). due \<le> now w + d) (timers w)) (w\<lparr>now := now w + d\<rparr>)"

text \<open>
  What happens to a document: a call of \<open>setAttribute\<close>, time passing, and the oldest
  upload in flight resolving or rejecting with an error.
\<close>

datatype event =
  SetAttribute string jsvalue | Elapse nat | UploadResolves | UploadRejects string

fun step :: "event \<Rightarrow> JsonFileWorld \<Rightarrow> JsonFileWorld" where
  "step (SetAttribute k v) w = setAttribute k v w"
| "step (Elapse d) w = elapse d w"
| "step UploadResolves w = uploadResolved w"
| "step (UploadRejects e) w = uploadRejected w"

definition run :: "event list \<Rightarrow> JsonFileWorld \<Rightarrow> JsonFileWorld" where
  "run evs w = fold step evs w"





text \<open>The change-listener calls of a trace, in order.\<close>

definition listenerCalls :: "docAction list \<Rightarrow> listener list" where
  "listenerCalls tr = concat (map (\<lambda>a. case a of ChangeListenerCall l \<Rightarrow> [l] | UploadChild p j \<Rightarrow> []) tr)"

text \<open>The text uploaded for a mapping.\<close>

definition uploadedJson :: "jsvalue jsmap \<Rightarrow> json" where
  "uploadedJson vals = stringifyObject (toObject vals)"


text \<open>A fresh document at a path, in a world at rest.\<close>

definition newJsonFile :: "string \<Rightarrow> ReactiveJsonFile" where
  "newJsonFile p = \<lparr>jsonPath = p, valueMap = [], pendingTimeout = None, changeListeners = []\<rparr>"

definition newWorld :: "string \<Rightarrow> JsonFileWorld" where
  "newWorld p = \<lparr>doc = newJsonFile p, now = 0, timers = [], nextHandle = 1, inflight = 0,
     trace = []\<rparr>"



section \<open>The cursor\<close>

text \<open>
  \<open>ReactiveCursor\<close>. \<open>self\<close> identifies the cursor's two listener closures, \<open>index\<close> is a
  reference to an index object (an address in the heap of indexes), and the cursor's
  \<open>loading\<close> and \<open>networkErrors\<close> are the fields \<open>cursorLoading\<close> and
  \<open>cursorNetworkErrors\<close>.
\<close>

record ReactiveCursor =
  self :: listener
  index :: nat
  path :: string
  metadata :: "ReactiveFileMetadata option"
  children :: "ReactiveFileMetadata jsmap"
  jsonFiles :: "ReactiveJsonFile jsmap"
  cursorLoading :: bool
  cursorNetworkErrors :: "string list"

definition getChildMetadata :: "ReactiveCursor \<Rightarrow> string \<Rightarrow> ReactiveFileMetadata option" where
  "getChildMetadata c child = map_of (children c) child"

definition getExists :: "ReactiveCursor \<Rightarrow> string option \<Rightarrow> bool" where
  "getExists c p = (case p of None \<Rightarrow> metadata c \<noteq> None | Some p' \<Rightarrow> getChildMetadata c p' \<noteq> None)"

text \<open>
  One round of the \<open>forEach\<close> of \<open>getImmediateChildFolders\<close>; \<open>of'\<close> is the argument \<open>of\<close>
  and \<open>parts[0]\<close> is the head of the never empty \<open>parts\<close>.
\<close>

definition folderStep ::
  "string \<Rightarrow> string \<times> ReactiveFileMetadata \<Rightarrow> ReactiveFileMetadata jsmap \<Rightarrow>
   ReactiveFileMetadata jsmap" where
  "folderStep of' = (\<lambda>(relativePath0, file) folders.
     if \<not> startsWith relativePath0 of' \<or> relativePath0 = of' then folders
     else
       (let relativePath = drop (length of') relativePath0;
            parts = split CHR ''/'' relativePath
        in case map_of folders (hd parts) of
             None \<Rightarrow>
               AList.update (hd parts)
                 \<lparr>key = hd parts, lastModified = lastModified file, size_bytes = size_bytes file\<rparr>
                 folders
           | Some existingFolder \<Rightarrow>
               AList.update (hd parts)
                 \<lparr>key = hd parts,
                  lastModified = (if lastModified file > lastModified existingFolder
                                  then lastModified file else lastModified existingFolder),
                  size_bytes = size_bytes file + size_bytes existingFolder\<rparr>
                 folders))"

text \<open>
  \<open>[...folders.values()].sort()\<close>: the default comparison converts every folder object
  to the same string \<open>[object Object]\<close>, and the sort is stable.
\<close>

definition sortFolders :: "ReactiveFileMetadata list \<Rightarrow> ReactiveFileMetadata list" where
  "sortFolders fs = sort_key (\<lambda>f. ''[object Object]'') fs"

definition getImmediateChildFolders :: "ReactiveCursor \<Rightarrow> string \<Rightarrow> ReactiveFileMetadata list" where
  "getImmediateChildFolders c of' = sortFolders (map snd (fold (folderStep of') (children c) []))"

text \<open>
  The cached children that count towards the folder \<open>n\<close> of \<open>of'\<close>: their keys start with
  \<open>of'\<close>, differ from it, and the first segment of the rest of the key is \<open>n\<close>.
\<close>

definition contributors ::
  "string \<Rightarrow> ReactiveFileMetadata jsmap \<Rightarrow> string \<Rightarrow> ReactiveFileMetadata jsmap" where
  "contributors of' ch n =
     filter (\<lambda>(k, f). startsWith k of' \<and> k \<noteq> of' \<and>
                hd (split CHR ''/'' (drop (length of') k)) = n) ch"

text \<open>The folder the files of a non-empty list add up to.\<close>

definition folderOf :: "string \<Rightarrow> ReactiveFileMetadata jsmap \<Rightarrow> ReactiveFileMetadata" where
  "folderOf n ch =
     \<lparr>key = n, lastModified = Max (set (map (lastModified \<circ> snd) ch)),
      size_bytes = sum_list (map (size_bytes \<circ> snd) ch)\<rparr>"

text \<open>A cursor at the root whose cached children are two files under \<open>a/\<close> and one under \<open>ab/\<close>.\<close>

definition folderCursor :: ReactiveCursor where
  "folderCursor =
     \<lparr>self = 7, index = 0, path = [], metadata = None,
      children =
        [(''a/x'', \<lparr>key = ''a/x'', lastModified = 1000, size_bytes = 3\<rparr>),
         (''a/y'', \<lparr>key = ''a/y'', lastModified = 2000, size_bytes = 5\<rparr>),
         (''ab/x'', \<lparr>key = ''ab/x'', lastModified = 1500, size_bytes = 7\<rparr>)],
      jsonFiles = [], cursorLoading = False, cursorNetworkErrors = []\<rparr>"

section \<open>Re-pointing a cursor\<close>

text \<open>
  What a document asks of the network: \<open>downloadText\<close> of a child path of the cursor,
  recorded with the full path handed to the index.
\<close>

datatype effect = DownloadText string string

definition fileExist :: "ReactiveCursor \<Rightarrow> ReactiveJsonFile \<Rightarrow> bool" where
  "fileExist c file = getExists c (Some (jsonPath file))"

text \<open>
  \<open>pathChanged\<close>, up to the download request: the document is kept and its file
  requested when the file exists under the cursor, and its mapping is cleared otherwise.
\<close>

definition pathChanged :: "ReactiveCursor \<Rightarrow> ReactiveJsonFile \<Rightarrow> ReactiveJsonFile \<times> effect list" where
  "pathChanged c file =
     (if fileExist c file
      then (file, [DownloadText (jsonPath file) (ensurePathEndsWithSlash (path c) @ jsonPath file)])
      else (file\<lparr>valueMap := []\<rparr>, []))"

text \<open>
  The \<open>then\<close> of that download: \<open>JSON.parse\<close> gives an object (its entries) or throws
  (\<open>None\<close>).
\<close>

definition downloadTextResolved ::
  "(string \<times> jsvalue) list option \<Rightarrow> ReactiveJsonFile \<Rightarrow> ReactiveJsonFile" where
  "downloadTextResolved parsed file =
     (case parsed of
        None \<Rightarrow> file\<lparr>valueMap := []\<rparr>
      | Some result \<Rightarrow>
          file\<lparr>valueMap := fold (\<lambda>(k, v) m. AList.update k v m) result (valueMap file)\<rparr>)"

text \<open>\<open>this.jsonFiles.forEach((file) => file.pathChanged())\<close>.\<close>

definition pathChangedAll ::
  "ReactiveCursor \<Rightarrow> ReactiveJsonFile jsmap \<Rightarrow> ReactiveJsonFile jsmap \<times> effect list" where
  "pathChangedAll c docs =
     fold (\<lambda>(p, file) (done, effs).
             (done @ [(p, fst (pathChanged c file))], effs @ snd (pathChanged c file)))
       docs ([], [])"

text \<open>A cursor, the index objects it may point at, and the requests its documents made.\<close>

record CursorWorld =
  heap :: "nat \<Rightarrow> ReactiveIndex"
  cursor :: ReactiveCursor
  effects :: "effect list"

definition setPath :: "string \<Rightarrow> CursorWorld \<Rightarrow> CursorWorld" where
  "setPath newPath w =
     (let c = cursor w in
      if newPath = path c then w
      else
        (let i0 = heap w (index c);
             i1 = removeMetadataListener (path c) (self c) i0;
             i2 = removeChildrenListener (path c) (self c) i1;
             c1 = c\<lparr>path := newPath, metadata := getMetadata i2 newPath,
                    children := getChildren i2 newPath\<rparr>;
             changed = pathChangedAll c1 (jsonFiles c1);
             c2 = c1\<lparr>jsonFiles := fst changed\<rparr>;
             i3 = addMetadataListener newPath (self c) i2;
             i4 = addChildrenListener newPath (self c) i3
         in w\<lparr>heap := (heap w)(index c := i4), cursor := c2,
               effects := effects w @ snd changed\<rparr>))"

definition setIndex :: "nat \<Rightarrow> CursorWorld \<Rightarrow> CursorWorld" where
  "setIndex newIdx w =
     (let c = cursor w in
      if newIdx = index c then w
      else
        (let old0 = heap w (index c);
             old1 = removeMetadataListener (path c) (self c) old0;
             old2 = removeChildrenListener (path c) (self c) old1;
             heap1 = (heap w)(index c := old2);
             c1 = c\<lparr>index := newIdx, metadata := getMetadata (heap1 newIdx) (path c),
                    children := getChildren (heap1 newIdx) (path c)\<rparr>;
             new1 = addMetadataListener (path c) (self c) (heap1 newIdx);
             new2 = addChildrenListener (path c) (self c) new1
         in w\<lparr>heap := heap1(newIdx := new2), cursor := c1\<rparr>))"

text \<open>
  A cursor at \<open>s\<close> on index \<open>0\<close>, which holds \<open>s/_subject.json\<close>, with the document
  \<open>_subject.json\<close> loaded; index \<open>1\<close> is empty.
\<close>

definition subjectFile :: ReactiveFileMetadata where
  "subjectFile = \<lparr>key = ''s/_subject.json'', lastModified = 1000, size_bytes = 10\<rparr>"

definition subjectDoc :: ReactiveJsonFile where
  "subjectDoc = \<lparr>jsonPath = ''_subject.json'', valueMap = [(''massKg'', Num 70)],
     pendingTimeout = None, changeListeners = []\<rparr>"

definition subjectWorld :: CursorWorld where
  "subjectWorld =
     \<lparr>heap = (\<lambda>a. newIndex Public)
        (0 := (newIndex Public)\<lparr>files := [(''s/_subject.json'', subjectFile)],
                metadataListeners := [(''s'', [7])], childrenListeners := [(''s'', [7])]\<rparr>),
      cursor = \<lparr>self = 7, index = 0, path = ''s'', metadata = None,
                children = [(''_subject.json'', subjectFile)],
                jsonFiles = [(''_subject.json'', subjectDoc)],
                cursorLoading = False, cursorNetworkErrors = []\<rparr>,
      effects = []\<rparr>"

section \<open>The index: network operations\<close>

text \<open>
  \<open>getNetworkErrorMessages\<close>: the messages ordered by their keys under
  \<open>localeCompare\<close>. The collation of the locale is an input of every operation that
  reads the messages: \<open>collate\<close> gives the sort key of a string, so that
  \<open>a.localeCompare(b)\<close> is negative exactly when \<open>collate a < collate b\<close>; the sort is
  stable.
\<close>

definition getNetworkErrorMessages ::
  "(string \<Rightarrow> 'c::linorder) \<Rightarrow> ReactiveIndex \<Rightarrow> string list" where
  "getNetworkErrorMessages collate idx =
     map snd (sort_key (\<lambda>(k, v). collate k) (networkErrors idx))"

definition setNetworkError ::
  "(string \<Rightarrow> 'c::linorder) \<Rightarrow> string \<Rightarrow> string \<Rightarrow> ReactiveIndex \<Rightarrow> ReactiveIndex" where
  "setNetworkError collate k v idx =
     (let oldErrors = getNetworkErrorMessages collate idx;
          idx1 = idx\<lparr>networkErrors := AList.update k v (networkErrors idx)\<rparr>;
          newErrors = getNetworkErrorMessages collate idx1
      in if newErrors \<noteq> oldErrors
         then idx1\<lparr>calls := calls idx1 @
                 map (\<lambda>l. NetworkErrorCall l newErrors) (networkErrorListeners idx1)\<rparr>
         else idx1)"

definition clearNetworkError ::
  "(string \<Rightarrow> 'c::linorder) \<Rightarrow> string \<Rightarrow> ReactiveIndex \<Rightarrow> ReactiveIndex" where
  "clearNetworkError collate k idx =
     (let oldErrors = getNetworkErrorMessages collate idx;
          idx1 = idx\<lparr>networkErrors := AList.delete k (networkErrors idx)\<rparr>;
          newErrors = getNetworkErrorMessages collate idx1
      in if newErrors \<noteq> oldErrors
         then idx1\<lparr>calls := calls idx1 @
                 map (\<lambda>l. NetworkErrorCall l newErrors) (networkErrorListeners idx1)\<rparr>
         else idx1)"

definition setIsLoading :: "bool \<Rightarrow> ReactiveIndex \<Rightarrow> ReactiveIndex" where
  "setIsLoading b idx =
     (if b \<noteq> loading idx
      then idx\<lparr>loading := b,
                calls := calls idx @ map (\<lambda>l. LoadingCall l b) (loadingListeners idx)\<rparr>
      else idx)"

text \<open>
  The store and the socket are outside the program: an operation takes what they
  answer. A promise of theirs is fulfilled or rejected with an error; \<open>Storage.put\<close> may
  also throw at once, and when it completes it may or may not have called the
  \<open>completeCallback\<close> as well. What an operation of the index returns is a promise that
  resolves, rejects with an error, or is never settled.
\<close>

datatype outcome = Fulfilled | Rejected string

datatype putOutcome = PutThrows string | PutRejected string | PutFulfilled bool

datatype promise = Resolves | Rejects string | NeverSettles

text \<open>A message published on the socket: its topic and its payload before \<open>JSON.stringify\<close>.\<close>

datatype payload = UpdatePayload ReactiveFileMetadata | DeletePayload string

text \<open>
  \<open>upload\<close>. \<open>blobSize\<close> is \<open>new Blob([contents]).size\<close> and \<open>time\<close> is
  \<open>(new Date()).getTime()\<close>, both read when \<open>upload\<close> is called; \<open>published\<close> tells
  whether the socket's publish promise is fulfilled. The calls of the caller's
  \<open>progressCallback\<close> are left out.
\<close>

definition upload ::
  "(string \<Rightarrow> 'c::linorder) \<Rightarrow> string \<Rightarrow> nat \<Rightarrow> int \<Rightarrow> putOutcome \<Rightarrow> bool \<Rightarrow> ReactiveIndex \<Rightarrow>
   ReactiveIndex \<times> (string \<times> payload) list \<times> promise" where
  "upload collate pth blobSize time put published idx =
     (let fullPath = globalPrefix idx @ pth;
          updatedFile = \<lparr>key = fullPath, lastModified = time, size_bytes = blobSize\<rparr>;
          topic = makeTopicPubSubSafe (''/UPDATE/'' @ fullPath)
      in case put of
           PutThrows e \<Rightarrow>
             (setNetworkError collate ''Upload'' ''We got an error trying to upload a file!'' idx,
              [], Rejects e)
         | PutRejected e \<Rightarrow>
             (setNetworkError collate ''Upload'' ''We got an error trying to upload a file!'' idx,
              [], Rejects e)
         | PutFulfilled completeCallback \<Rightarrow>
             (let idx1 = (if completeCallback then clearNetworkError collate ''Upload'' idx else idx);
                  sent1 = (if completeCallback then [(topic, UpdatePayload updatedFile)] else [])
              in (clearNetworkError collate ''Upload'' idx1,
                  sent1 @ [(topic, UpdatePayload updatedFile)],
                  if published then Resolves else NeverSettles)))"

text \<open>\<open>delete\<close>: the \<open>catch\<close> also covers a publish that fails.\<close>

definition delete ::
  "(string \<Rightarrow> 'c::linorder) \<Rightarrow> string \<Rightarrow> outcome \<Rightarrow> outcome \<Rightarrow> ReactiveIndex \<Rightarrow>
   ReactiveIndex \<times> (string \<times> payload) list \<times> promise" where
  "delete collate pth removed published idx =
     (let fullPath = globalPrefix idx @ pth;
          topic = makeTopicPubSubSafe (''/DELETE/'' @ fullPath)
      in case removed of
           Rejected e \<Rightarrow>
             (setNetworkError collate ''Delete'' ''We got an error trying to delete a file!'' idx,
              [], Rejects e)
         | Fulfilled \<Rightarrow>
             (let idx1 = clearNetworkError collate ''Delete'' idx
              in case published of
                   Fulfilled \<Rightarrow> (idx1, [(topic, DeletePayload fullPath)], Resolves)
                 | Rejected e \<Rightarrow>
                     (setNetworkError collate ''Delete'' ''We got an error trying to delete a file!'' idx1,
                      [(topic, DeletePayload fullPath)], Rejects e)))"

text \<open>An entry of the store's listing: each of its fields may be missing.\<close>

datatype S3ProviderListOutputItem =
  S3Item (itemKey: "string option") (itemLastModified: "int option") (itemSize: "nat option")

datatype listOutcome = ListFulfilled "S3ProviderListOutputItem list" | ListRejected string

definition fullRefresh ::
  "(string \<Rightarrow> 'c::linorder) \<Rightarrow> listOutcome \<Rightarrow> ReactiveIndex \<Rightarrow> ReactiveIndex \<times> promise" where
  "fullRefresh collate listed idx =
     (let idx0 = setIsLoading True idx
      in case listed of
           ListRejected err \<Rightarrow>
             (setNetworkError collate ''FullRefresh''
                ''We got an error trying to load the files! Attempting to reconnect...''
                (setIsLoading False idx0),
              Resolves)
         | ListFulfilled result \<Rightarrow>
             (let idx1 = clearNetworkError collate ''FullRefresh'' (setIsLoading False idx0);
                  newFiles = fold (\<lambda>item m. case itemKey item of
                                                None \<Rightarrow> m
                                              | Some k \<Rightarrow> AList.update k item m) result [];
                  idx2 = fold (\<lambda>(p, file) i.
                                 if map_of newFiles p = None then deleteFileInIndex p i else i)
                           (files idx1) idx1;
                  idx3 = fold (\<lambda>(p, file) i.
                                 case (itemKey file, itemLastModified file, itemSize file) of
                                   (Some k, Some lm, Some sz) \<Rightarrow>
                                     updateFileInIndex
                                       \<lparr>key = k, lastModified = lm, size_bytes = sz\<rparr> i
                                 | _ \<Rightarrow> i)
                           newFiles idx2
              in (idx3, Resolves)))"

text \<open>
  The handler of the \<open>/UPDATE/\<close> subscription: the message's key with the global
  prefix cut off.
\<close>

definition onUpdateMessage :: "ReactiveFileMetadata \<Rightarrow> ReactiveIndex \<Rightarrow> ReactiveIndex" where
  "onUpdateMessage msg idx =
     onReceivedPubSubUpdate
       \<lparr>key = drop (length (globalPrefix idx)) (key msg), lastModified = lastModified msg,
        size_bytes = size_bytes msg\<rparr> idx"

text \<open>The collation that compares strings by their code units.\<close>

definition codeUnitOrder :: "string \<Rightarrow> string" where
  "codeUnitOrder k = k"

text \<open>A public index after \<open>setupPubsub\<close>, with one network-error listener.\<close>

definition publicIndex :: ReactiveIndex where
  "publicIndex = (newIndex Public)\<lparr>globalPrefix := ''public/'', networkErrorListeners := [3]\<rparr>"

section \<open>Facts about strings\<close>

lemma split_not_Nil: "split c xs \<noteq> []"
  by (induction xs) (auto split: list.splits)

lemma join_split: "join c (split c xs) = xs"
proof (induction xs)
  case Nil
  show ?case by simp
next
  case (Cons x xs)
  obtain s ss where sp: "split c xs = s # ss"
    using split_not_Nil [of c xs] by (cases "split c xs") auto
  show ?case
  proof (cases "x = c")
    case True
    with Cons sp show ?thesis by simp
  next
    case False
    with Cons sp show ?thesis by (cases ss) auto
  qed
qed

lemma split_no_sep: "c \<notin> set xs \<Longrightarrow> split c xs = [xs]"
  by (induction xs) (auto split: list.splits)

lemma join_snoc:
  "join c (ss @ [s]) = (if ss = [] then s else join c ss @ c # s)"
  by (induction c ss rule: join.induct) auto

lemma startsWith_iff: "startsWith s p \<longleftrightarrow> (\<exists>r. s = p @ r)"
  by (auto simp: startsWith_def prefix_def)

lemma startsWith_drop: "startsWith s p \<Longrightarrow> p @ drop (length p) s = s"
  by (auto simp: startsWith_iff)

section \<open>Facts about topic truncation\<close>

lemma topicLoop_prefix:
  "\<exists>k. length done \<le> k \<and> k \<le> length (done @ rest) \<and>
     topicLoop rest (length done) (join CHR ''/'' done) = join CHR ''/'' (take k (done @ rest)) \<and>
     (\<forall>j. length done < j \<and> j \<le> k \<longrightarrow>
        length (join CHR ''/'' (take j (done @ rest))) < MAX_TOPIC_LEN) \<and>
     (k < length (done @ rest) \<longrightarrow>
        \<not> length (join CHR ''/'' (take (Suc k) (done @ rest))) < MAX_TOPIC_LEN)"
proof (induction rest arbitrary: "done")
  case Nil
  show ?case by (rule exI [of _ "length done"]) simp
next
  case (Cons seg rest)
  let ?all = "done @ seg # rest"
  let ?next = "join CHR ''/'' (done @ [seg])"
  have eq: "(done @ [seg]) @ rest = ?all" by simp
  have len: "length (done @ [seg]) = Suc (length done)" by simp
  have nxt: "(if length done > 0 then join CHR ''/'' done @ ''/'' else join CHR ''/'' done) @ seg = ?next"
    by (simp add: join_snoc)
  have tk: "take (Suc (length done)) ?all = done @ [seg]" by simp
  have unf: "topicLoop (seg # rest) (length done) (join CHR ''/'' done) =
      (if length ?next < MAX_TOPIC_LEN then topicLoop rest (Suc (length done)) ?next
       else join CHR ''/'' done)"
    unfolding topicLoop.simps Let_def nxt ..
  show ?case
  proof (cases "length ?next < MAX_TOPIC_LEN")
    case False
    have a: "topicLoop (seg # rest) (length done) (join CHR ''/'' done) =
        join CHR ''/'' (take (length done) ?all)"
      unfolding unf using False by simp
    have b: "\<not> length (join CHR ''/'' (take (Suc (length done)) ?all)) < MAX_TOPIC_LEN"
      unfolding tk by (rule False)
    show ?thesis
      apply (rule exI [of _ "length done"])
      using a b apply simp
      done
  next
    case True
    from Cons.IH [of "done @ [seg]"] obtain k where
      k1: "Suc (length done) \<le> k" and k2: "k \<le> length ?all" and
      k3: "topicLoop rest (Suc (length done)) ?next = join CHR ''/'' (take k ?all)" and
      k4: "\<forall>j. Suc (length done) < j \<and> j \<le> k \<longrightarrow>
         length (join CHR ''/'' (take j ?all)) < MAX_TOPIC_LEN" and
      k5: "k < length ?all \<longrightarrow>
         \<not> length (join CHR ''/'' (take (Suc k) ?all)) < MAX_TOPIC_LEN"
      unfolding eq len by blast
    have step: "topicLoop (seg # rest) (length done) (join CHR ''/'' done) =
        join CHR ''/'' (take k ?all)"
      unfolding unf k3 [symmetric] using True by simp
    have all: "\<forall>j. length done < j \<and> j \<le> k \<longrightarrow>
         length (join CHR ''/'' (take j ?all)) < MAX_TOPIC_LEN"
    proof (intro allI impI)
      fix j assume j: "length done < j \<and> j \<le> k"
      show "length (join CHR ''/'' (take j ?all)) < MAX_TOPIC_LEN"
      proof (cases "j = Suc (length done)")
        case True
        show ?thesis unfolding True tk by (rule \<open>length ?next < MAX_TOPIC_LEN\<close>)
      next
        case False
        with j have "Suc (length done) < j \<and> j \<le> k" by arith
        with k4 show ?thesis by blast
      qed
    qed
    from k1 have k0: "length done \<le> k" by arith
    from k0 k2 step all k5 show ?thesis by blast
  qed
qed

text \<open>
  C8. \<open>makeTopicPubSubSafe\<close> returns a path of at most 80 characters unchanged; for a
  longer path whose first segment alone is longer than 80 it returns the first 80
  characters of that segment; otherwise it returns the first \<open>k\<close> whole segments joined by
  \<open>/\<close>, where every shorter run of whole segments, and this one, is under 80 characters
  and the run with one more segment is not. A slash-free path of 100 characters becomes
  its first 80 characters.
\<close>

theorem makeTopicPubSubSafe_truncation:
  "(length pth \<le> 80 \<longrightarrow> makeTopicPubSubSafe pth = pth) \<and>
   (length pth > 80 \<and> length (hd (split CHR ''/'' pth)) > 80 \<longrightarrow>
      makeTopicPubSubSafe pth = take 80 (hd (split CHR ''/'' pth))) \<and>
   (length pth > 80 \<and> length (hd (split CHR ''/'' pth)) \<le> 80 \<longrightarrow>
      (\<exists>k < length (split CHR ''/'' pth).
         makeTopicPubSubSafe pth = join CHR ''/'' (take k (split CHR ''/'' pth)) \<and>
         (\<forall>j \<le> k. length (join CHR ''/'' (take j (split CHR ''/'' pth))) < 80) \<and>
         \<not> length (join CHR ''/'' (take (Suc k) (split CHR ''/'' pth))) < 80)) \<and>
   (length pth = 100 \<and> CHR ''/'' \<notin> set pth \<longrightarrow> makeTopicPubSubSafe pth = take 80 pth)"
proof (intro conjI impI)
  assume "length pth \<le> 80"
  then show "makeTopicPubSubSafe pth = pth"
    by (simp add: makeTopicPubSubSafe_def MAX_TOPIC_LEN_def)
next
  assume "length pth > 80 \<and> length (hd (split CHR ''/'' pth)) > 80"
  then show "makeTopicPubSubSafe pth = take 80 (hd (split CHR ''/'' pth))"
    by (simp add: makeTopicPubSubSafe_def MAX_TOPIC_LEN_def Let_def)
next
  let ?segs = "split CHR ''/'' pth"
  assume a: "length pth > 80 \<and> length (hd ?segs) \<le> 80"
  then have m: "makeTopicPubSubSafe pth = topicLoop ?segs 0 []"
    by (simp add: makeTopicPubSubSafe_def MAX_TOPIC_LEN_def Let_def)
  have "\<exists>k. k \<le> length ?segs \<and>
      topicLoop ?segs 0 [] = join CHR ''/'' (take k ?segs) \<and>
      (\<forall>j. 0 < j \<and> j \<le> k \<longrightarrow> length (join CHR ''/'' (take j ?segs)) < 80) \<and>
      (k < length ?segs \<longrightarrow> \<not> length (join CHR ''/'' (take (Suc k) ?segs)) < 80)"
    using topicLoop_prefix [of "[]" ?segs] unfolding MAX_TOPIC_LEN_def by simp
  then obtain k where
    k1: "k \<le> length ?segs" and
    k2: "topicLoop ?segs 0 [] = join CHR ''/'' (take k ?segs)" and
    k3: "\<forall>j. 0 < j \<and> j \<le> k \<longrightarrow> length (join CHR ''/'' (take j ?segs)) < 80" and
    k4: "k < length ?segs \<longrightarrow> \<not> length (join CHR ''/'' (take (Suc k) ?segs)) < 80"
    by blast
  have all: "\<forall>j \<le> k. length (join CHR ''/'' (take j ?segs)) < 80"
  proof (intro allI impI)
    fix j assume jk: "j \<le> k"
    show "length (join CHR ''/'' (take j ?segs)) < 80"
    proof (cases "j = 0")
      case True
      then show ?thesis by simp
    next
      case False
      with jk k3 show ?thesis by blast
    qed
  qed
  have "k \<noteq> length ?segs"
  proof
    assume e: "k = length ?segs"
    from all have "length (join CHR ''/'' (take k ?segs)) < 80" by blast
    then have "length pth < 80" unfolding e by (simp add: join_split)
    with a show False by simp
  qed
  with k1 have lt: "k < length ?segs" by simp
  with k4 have last: "\<not> length (join CHR ''/'' (take (Suc k) ?segs)) < 80"
    by blast
  from m k2 have res: "makeTopicPubSubSafe pth = join CHR ''/'' (take k ?segs)" by simp
  from lt res all last
  show "\<exists>k < length ?segs.
         makeTopicPubSubSafe pth = join CHR ''/'' (take k ?segs) \<and>
         (\<forall>j \<le> k. length (join CHR ''/'' (take j ?segs)) < 80) \<and>
         \<not> length (join CHR ''/'' (take (Suc k) ?segs)) < 80"
    by blast
next
  assume "length pth = 100 \<and> CHR ''/'' \<notin> set pth"
  then show "makeTopicPubSubSafe pth = take 80 pth"
    by (simp add: makeTopicPubSubSafe_def MAX_TOPIC_LEN_def Let_def split_no_sep)
qed

theorem makeTopicPubSubSafe_truncation_witness:
  "length ''/UPDATE/public/a/x.txt'' \<le> 80 \<and>
   makeTopicPubSubSafe ''/UPDATE/public/a/x.txt'' = ''/UPDATE/public/a/x.txt'' \<and>
   length (replicate 100 CHR ''a'') = 100 \<and> CHR ''/'' \<notin> set (replicate 100 CHR ''a'') \<and>
   makeTopicPubSubSafe (replicate 100 CHR ''a'') = take 80 (replicate 100 CHR ''a'') \<and>
   length (replicate 90 CHR ''a'' @ ''/b'') > 80 \<and>
   length (hd (split CHR ''/'' (replicate 90 CHR ''a'' @ ''/b''))) > 80 \<and>
   makeTopicPubSubSafe (replicate 90 CHR ''a'' @ ''/b'') =
     take 80 (hd (split CHR ''/'' (replicate 90 CHR ''a'' @ ''/b''))) \<and>
   length longTopic > 80 \<and> length (hd (split CHR ''/'' longTopic)) \<le> 80 \<and>
   (\<exists>k < length (split CHR ''/'' longTopic).
      makeTopicPubSubSafe longTopic = join CHR ''/'' (take k (split CHR ''/'' longTopic)) \<and>
      (\<forall>j \<le> k. length (join CHR ''/'' (take j (split CHR ''/'' longTopic))) < 80) \<and>
      \<not> length (join CHR ''/'' (take (Suc k) (split CHR ''/'' longTopic))) < 80)"
proof -
  have h1: "length ''/UPDATE/public/a/x.txt'' \<le> 80" by simp
  have h2: "length (replicate 100 CHR ''a'') = 100 \<and> CHR ''/'' \<notin> set (replicate 100 CHR ''a'')"
    by simp
  have h3: "length (replicate 90 CHR ''a'' @ ''/b'') > 80 \<and>
      length (hd (split CHR ''/'' (replicate 90 CHR ''a'' @ ''/b''))) > 80"
    by code_simp
  have h4: "length longTopic > 80 \<and> length (hd (split CHR ''/'' longTopic)) \<le> 80"
    by code_simp
  note t1 = makeTopicPubSubSafe_truncation
    [of "''/UPDATE/public/a/x.txt''", THEN conjunct1, THEN mp, OF h1]
  note t2 = makeTopicPubSubSafe_truncation
    [of "replicate 100 CHR ''a''", THEN conjunct2, THEN conjunct2, THEN conjunct2, THEN mp, OF h2]
  note t3 = makeTopicPubSubSafe_truncation
    [of "replicate 90 CHR ''a'' @ ''/b''", THEN conjunct2, THEN conjunct1, THEN mp, OF h3]
  note t4 = makeTopicPubSubSafe_truncation
    [of longTopic, THEN conjunct2, THEN conjunct2, THEN conjunct1, THEN mp, OF h4]
  from h1 t1 h2 t2 h3 t3 h4 t4 show ?thesis by blast
qed

section \<open>Facts about the children of a path\<close>

lemma update_fresh: "k \<notin> fst ` set al \<Longrightarrow> AList.update k v al = al @ [(k, v)]"
  by (induction al) auto

lemma fold_update_fresh:
  "distinct (map fst xs) \<Longrightarrow> inj_on g {k \<in> fst ` set xs. P k} \<Longrightarrow>
   g ` {k \<in> fst ` set xs. P k} \<inter> fst ` set acc = {} \<Longrightarrow>
   fold (\<lambda>(k, f) children. if P k then AList.update (g k) f children else children) xs acc =
     acc @ map (\<lambda>(k, f). (g k, f)) (filter (\<lambda>(k, f). P k) xs)"
proof (induction xs arbitrary: acc)
  case Nil
  show ?case by simp
next
  case (Cons x xs)
  obtain k f where x: "x = (k, f)" by (cases x)
  have d: "distinct (map fst xs)" and knot: "k \<notin> fst ` set xs"
    using Cons.prems(1) x by auto
  have sub: "{k' \<in> fst ` set xs. P k'} \<subseteq> {k' \<in> fst ` set (x # xs). P k'}" by auto
  have inj: "inj_on g {k' \<in> fst ` set xs. P k'}"
    using Cons.prems(2) sub by (rule inj_on_subset)
  show ?case
  proof (cases "P k")
    case False
    have "g ` {k' \<in> fst ` set xs. P k'} \<inter> fst ` set acc = {}"
      using Cons.prems(3) sub by blast
    from Cons.IH [OF d inj this] False x show ?thesis by simp
  next
    case True
    have fresh: "g k \<notin> fst ` set acc"
      using Cons.prems(3) True x by auto
    have gk: "g k \<notin> g ` {k' \<in> fst ` set xs. P k'}"
    proof
      assume "g k \<in> g ` {k' \<in> fst ` set xs. P k'}"
      then obtain k' where k': "k' \<in> fst ` set xs" "P k'" "g k = g k'" by auto
      have "k \<in> {k' \<in> fst ` set (x # xs). P k'}" using True x by simp
      moreover have "k' \<in> {k' \<in> fst ` set (x # xs). P k'}" using k' by simp
      ultimately have "k = k'" using Cons.prems(2) k'(3) by (auto dest: inj_onD)
      with knot k'(1) show False by simp
    qed
    have disj: "g ` {k' \<in> fst ` set xs. P k'} \<inter> fst ` set (acc @ [(g k, f)]) = {}"
      using Cons.prems(3) sub gk by auto
    from Cons.IH [OF d inj disj] True x fresh show ?thesis
      by (simp add: update_fresh)
  qed
qed

lemma inj_on_drop_prefix: "inj_on (drop (length p)) {k \<in> A. startsWith k p \<and> k \<noteq> p}"
proof (rule inj_onI)
  fix x y
  assume x: "x \<in> {k \<in> A. startsWith k p \<and> k \<noteq> p}"
    and y: "y \<in> {k \<in> A. startsWith k p \<and> k \<noteq> p}"
    and e: "drop (length p) x = drop (length p) y"
  from x have "startsWith x p" by simp
  then have 1: "p @ drop (length p) x = x" by (rule startsWith_drop)
  from y have "startsWith y p" by simp
  then have 2: "p @ drop (length p) y = y" by (rule startsWith_drop)
  from 1 2 e show "x = y" by metis
qed

lemma getChildren_filter:
  assumes "distinct (map fst (files idx))"
  shows "getChildren idx p =
    map (\<lambda>(k, f). (drop (length (childPrefix p)) k, f))
      (filter (\<lambda>(k, f). startsWith k (childPrefix p) \<and> k \<noteq> childPrefix p) (files idx))"
proof -
  have "fold (\<lambda>(k, f) children.
           if startsWith k (childPrefix p) \<and> k \<noteq> childPrefix p
           then AList.update (drop (length (childPrefix p)) k) f children else children)
         (files idx) [] =
       [] @ map (\<lambda>(k, f). (drop (length (childPrefix p)) k, f))
         (filter (\<lambda>(k, f). startsWith k (childPrefix p) \<and> k \<noteq> childPrefix p) (files idx))"
    by (rule fold_update_fresh [OF assms inj_on_drop_prefix]) simp
  moreover have "getChildren idx p =
      fold (\<lambda>(k, f) children.
           if startsWith k (childPrefix p) \<and> k \<noteq> childPrefix p
           then AList.update (drop (length (childPrefix p)) k) f children else children)
         (files idx) []"
    unfolding getChildren_def Let_def childPrefix_def by (rule refl)
  ultimately show ?thesis by simp
qed

lemma option_eqI: "(\<And>v. a = Some v \<longleftrightarrow> b = Some v) \<Longrightarrow> a = b"
  by (cases a; cases b) auto

lemma distinct_getChildren:
  assumes "distinct (map fst (files idx))"
  shows "distinct (map fst (getChildren idx p))"
proof -
  let ?P = "\<lambda>(k, f). startsWith k (childPrefix p) \<and> k \<noteq> childPrefix p"
  have m: "map fst (getChildren idx p) =
      map (drop (length (childPrefix p))) (map fst (filter ?P (files idx)))"
    by (simp add: getChildren_filter [OF assms] case_prod_unfold comp_def)
  have d: "distinct (map fst (filter ?P (files idx)))"
    using assms by (rule distinct_map_filter)
  have "set (map fst (filter ?P (files idx))) \<subseteq>
      {k \<in> fst ` set (files idx). startsWith k (childPrefix p) \<and> k \<noteq> childPrefix p}"
    by auto
  with inj_on_drop_prefix
  have i: "inj_on (drop (length (childPrefix p))) (set (map fst (filter ?P (files idx))))"
    by (rule inj_on_subset)
  show ?thesis unfolding m by (rule iffD2 [OF distinct_map, OF conjI [OF d i]])
qed

lemma set_getChildren:
  assumes "distinct (map fst (files idx))"
  shows "(s, f) \<in> set (getChildren idx p) \<longleftrightarrow>
    s \<noteq> [] \<and> (childPrefix p @ s, f) \<in> set (files idx)"
proof
  assume "(s, f) \<in> set (getChildren idx p)"
  then obtain k where k: "(k, f) \<in> set (files idx)" "startsWith k (childPrefix p)"
      "k \<noteq> childPrefix p" "s = drop (length (childPrefix p)) k"
    unfolding getChildren_filter [OF assms] by auto
  from k(2) have e: "childPrefix p @ s = k" unfolding k(4) by (rule startsWith_drop)
  with k(3) have "s \<noteq> []" by auto
  with e k(1) show "s \<noteq> [] \<and> (childPrefix p @ s, f) \<in> set (files idx)" by simp
next
  assume a: "s \<noteq> [] \<and> (childPrefix p @ s, f) \<in> set (files idx)"
  let ?k = "childPrefix p @ s"
  have "startsWith ?k (childPrefix p)" by (simp add: startsWith_iff)
  moreover have "?k \<noteq> childPrefix p" using a by simp
  moreover have "drop (length (childPrefix p)) ?k = s" by simp
  ultimately show "(s, f) \<in> set (getChildren idx p)"
    unfolding getChildren_filter [OF assms] using a by force
qed

lemma map_of_getChildren:
  assumes "distinct (map fst (files idx))"
  shows "map_of (getChildren idx p) s =
    (if s = [] then None else map_of (files idx) (childPrefix p @ s))"
proof (rule option_eqI)
  fix v
  have "map_of (getChildren idx p) s = Some v \<longleftrightarrow> (s, v) \<in> set (getChildren idx p)"
    using distinct_getChildren [OF assms] by (rule map_of_eq_Some_iff)
  also have "\<dots> \<longleftrightarrow> s \<noteq> [] \<and> (childPrefix p @ s, v) \<in> set (files idx)"
    by (rule set_getChildren [OF assms])
  also have "\<dots> \<longleftrightarrow> s \<noteq> [] \<and> map_of (files idx) (childPrefix p @ s) = Some v"
    using map_of_eq_Some_iff [OF assms] by simp
  finally show "map_of (getChildren idx p) s = Some v \<longleftrightarrow>
      (if s = [] then None else map_of (files idx) (childPrefix p @ s)) = Some v"
    by simp
qed

lemma getChildren_example:
  assumes "files idx = [(''a/x.txt'', f1), (''a/y.txt'', f2), (''b.txt'', f3)]"
  shows "getChildren idx ''a'' = [(''x.txt'', f1), (''y.txt'', f2)]"
    and "getChildren idx [] = files idx"
  using assms by (simp_all add: getChildren_def startsWith_def endsWith_def suffix_to_prefix)

text \<open>
  C2 (as amended). With \<open>p'\<close> the path \<open>p\<close> itself when \<open>p\<close> is empty or ends with \<open>/\<close>,
  and \<open>p + "/"\<close> otherwise, \<open>getChildren(p)\<close> returns exactly the entries whose keys start
  with \<open>p'\<close> and differ from \<open>p'\<close>, in the order of the file map, re-keyed by the
  suffix after \<open>p'\<close>; so a suffix \<open>s\<close> is a child exactly when it is not empty and
  \<open>p' + s\<close> is a stored key. For the files \<open>a/x.txt\<close>, \<open>a/y.txt\<close>, \<open>b.txt\<close>,
  \<open>getChildren("a")\<close> is \<open>x.txt\<close>, \<open>y.txt\<close> and \<open>getChildren("")\<close> is all three unchanged.
\<close>

theorem getChildren_children:
  "distinct (map fst (files idx)) \<Longrightarrow>
   getChildren idx p =
     map (\<lambda>(k, f). (drop (length (childPrefix p)) k, f))
       (filter (\<lambda>(k, f). startsWith k (childPrefix p) \<and> k \<noteq> childPrefix p) (files idx)) \<and>
   (\<forall>s. map_of (getChildren idx p) s =
      (if s = [] then None else map_of (files idx) (childPrefix p @ s))) \<and>
   (files idx = [(''a/x.txt'', f1), (''a/y.txt'', f2), (''b.txt'', f3)] \<longrightarrow>
      getChildren idx ''a'' = [(''x.txt'', f1), (''y.txt'', f2)] \<and>
      getChildren idx [] = files idx)"
  using getChildren_filter [of idx p] map_of_getChildren [of idx p]
    getChildren_example [of idx f1 f2 f3]
  by blast

text \<open>
  The children invariant as the spec words it (prefix \<open>p + "/"\<close> for every \<open>p\<close>) fails
  at the empty path and at a path that ends with \<open>/\<close>: the code returns the children,
  the worded rule returns none.
\<close>

theorem getChildren_spec_counterexample:
  "getChildren exampleIndex [] =
     [(''a/x.txt'', \<lparr>key = ''a/x.txt'', lastModified = 1000, size_bytes = 10\<rparr>),
      (''a/y.txt'', \<lparr>key = ''a/y.txt'', lastModified = 2000, size_bytes = 20\<rparr>),
      (''b.txt'', \<lparr>key = ''b.txt'', lastModified = 3000, size_bytes = 30\<rparr>)] \<and>
   getChildrenSpec (files exampleIndex) [] = [] \<and>
   getChildren exampleIndex ''a/'' =
     [(''x.txt'', \<lparr>key = ''a/x.txt'', lastModified = 1000, size_bytes = 10\<rparr>),
      (''y.txt'', \<lparr>key = ''a/y.txt'', lastModified = 2000, size_bytes = 20\<rparr>)] \<and>
   getChildrenSpec (files exampleIndex) ''a/'' = []"
  by (simp add: getChildren_def getChildrenSpec_def exampleIndex_def newIndex_def
      startsWith_def endsWith_def suffix_to_prefix)

theorem getChildren_children_witness:
  "distinct (map fst (files exampleIndex)) \<and>
   files exampleIndex =
     [(''a/x.txt'', \<lparr>key = ''a/x.txt'', lastModified = 1000, size_bytes = 10\<rparr>),
      (''a/y.txt'', \<lparr>key = ''a/y.txt'', lastModified = 2000, size_bytes = 20\<rparr>),
      (''b.txt'', \<lparr>key = ''b.txt'', lastModified = 3000, size_bytes = 30\<rparr>)] \<and>
   getChildren exampleIndex ''a'' =
     [(''x.txt'', \<lparr>key = ''a/x.txt'', lastModified = 1000, size_bytes = 10\<rparr>),
      (''y.txt'', \<lparr>key = ''a/y.txt'', lastModified = 2000, size_bytes = 20\<rparr>)] \<and>
   getChildren exampleIndex [] = files exampleIndex \<and>
   map_of (getChildren exampleIndex ''a'') ''x.txt'' =
     map_of (files exampleIndex) (childPrefix ''a'' @ ''x.txt'')"
proof -
  have d: "distinct (map fst (files exampleIndex))"
    by (simp add: exampleIndex_def newIndex_def)
  have f: "files exampleIndex =
     [(''a/x.txt'', \<lparr>key = ''a/x.txt'', lastModified = 1000, size_bytes = 10\<rparr>),
      (''a/y.txt'', \<lparr>key = ''a/y.txt'', lastModified = 2000, size_bytes = 20\<rparr>),
      (''b.txt'', \<lparr>key = ''b.txt'', lastModified = 3000, size_bytes = 30\<rparr>)]"
    by (simp add: exampleIndex_def newIndex_def)
  note t = getChildren_children [OF d, of "''a''"
      "\<lparr>key = ''a/x.txt'', lastModified = 1000, size_bytes = 10\<rparr>"
      "\<lparr>key = ''a/y.txt'', lastModified = 2000, size_bytes = 20\<rparr>"
      "\<lparr>key = ''b.txt'', lastModified = 3000, size_bytes = 30\<rparr>"]
  from t have m: "map_of (getChildren exampleIndex ''a'') ''x.txt'' =
      (if ''x.txt'' = [] then None else map_of (files exampleIndex) (childPrefix ''a'' @ ''x.txt''))"
    by blast
  from t f have e: "getChildren exampleIndex ''a'' =
     [(''x.txt'', \<lparr>key = ''a/x.txt'', lastModified = 1000, size_bytes = 10\<rparr>),
      (''y.txt'', \<lparr>key = ''a/y.txt'', lastModified = 2000, size_bytes = 20\<rparr>)] \<and>
      getChildren exampleIndex [] = files exampleIndex"
    by blast
  from d f e m show ?thesis by simp
qed

section \<open>Facts about the merge\<close>

lemma updateChildListenersAt_frame:
  "files (updateChildListenersAt k ls idx) = files idx"
  "metadataListeners (updateChildListenersAt k ls idx) = metadataListeners idx"
  "childrenListeners (updateChildListenersAt k ls idx) = childrenListeners idx"
  "networkErrors (updateChildListenersAt k ls idx) = networkErrors idx"
  by (simp_all add: updateChildListenersAt_def Let_def)

lemma fold_updateChildListenersAt_frame:
  "files (fold (\<lambda>(k, ls). updateChildListenersAt k ls) xs idx) = files idx \<and>
   metadataListeners (fold (\<lambda>(k, ls). updateChildListenersAt k ls) xs idx) = metadataListeners idx \<and>
   childrenListeners (fold (\<lambda>(k, ls). updateChildListenersAt k ls) xs idx) = childrenListeners idx \<and>
   networkErrors (fold (\<lambda>(k, ls). updateChildListenersAt k ls) xs idx) = networkErrors idx"
  by (induction xs arbitrary: idx) (auto simp: updateChildListenersAt_frame)

lemma updateChildListeners_frame:
  "files (updateChildListeners idx) = files idx"
  "metadataListeners (updateChildListeners idx) = metadataListeners idx"
  "childrenListeners (updateChildListeners idx) = childrenListeners idx"
  "networkErrors (updateChildListeners idx) = networkErrors idx"
  by (simp_all add: updateChildListeners_def fold_updateChildListenersAt_frame)

lemma files_updateFileInIndex:
  "files (updateFileInIndex file idx) =
     (if accepts file idx then AList.update (key file) file (files idx) else files idx)"
  by (simp add: updateFileInIndex_def accepts_def Let_def updateChildListeners_frame)

lemma updateFileInIndex_stale:
  "\<not> accepts file idx \<Longrightarrow> updateFileInIndex file idx = idx"
  by (simp add: updateFileInIndex_def accepts_def Let_def)

lemma fold_updateFileInIndex_stale:
  "map_of (files idx) k = Some e \<Longrightarrow>
   \<forall>u \<in> set vs. key u = k \<and> lastModified u \<le> lastModified e \<Longrightarrow>
   fold updateFileInIndex vs idx = idx"
proof (induction vs)
  case Nil
  show ?case by simp
next
  case (Cons v vs)
  have "\<not> accepts v idx" using Cons.prems by (simp add: accepts_def)
  then have "updateFileInIndex v idx = idx" by (rule updateFileInIndex_stale)
  with Cons show ?case by simp
qed

lemma fold_updateFileInIndex_latest:
  "\<forall>u \<in> set vs. key u = k \<Longrightarrow> distinct (map lastModified vs) \<Longrightarrow> r \<in> set vs \<Longrightarrow>
   \<forall>u \<in> set vs. lastModified u \<le> lastModified r \<Longrightarrow>
   (case map_of (files idx) k of None \<Rightarrow> True | Some e \<Rightarrow> lastModified e < lastModified r) \<Longrightarrow>
   files (fold updateFileInIndex vs idx) = AList.update k r (files idx)"
proof (induction vs arbitrary: idx)
  case Nil
  then show ?case by simp
next
  case (Cons v vs)
  have kv: "key v = k" and kr: "key r = k" using Cons.prems(1,3) by auto
  let ?idx1 = "updateFileInIndex v idx"
  show ?case
  proof (cases "v = r")
    case True
    have acc: "accepts r idx" using Cons.prems(5) kr by (simp add: accepts_def)
    then have f1: "files (updateFileInIndex r idx) = AList.update k r (files idx)"
      using kr by (simp add: files_updateFileInIndex)
    then have st: "map_of (files (updateFileInIndex r idx)) k = Some r"
      by (simp add: update_conv')
    have "\<forall>u \<in> set vs. key u = k \<and> lastModified u \<le> lastModified r"
      using Cons.prems(1,4) by simp
    with st have "fold updateFileInIndex vs (updateFileInIndex r idx) = updateFileInIndex r idx"
      by (rule fold_updateFileInIndex_stale)
    with f1 True show ?thesis by simp
  next
    case False
    with Cons.prems(3) have rin: "r \<in> set vs" by simp
    have "lastModified v \<notin> lastModified ` set vs" using Cons.prems(2) by simp
    with rin have "lastModified v \<noteq> lastModified r" by auto
    moreover have "lastModified v \<le> lastModified r" using Cons.prems(4) by simp
    ultimately have lt: "lastModified v < lastModified r" by simp
    have f1: "files ?idx1 = AList.update k v (files idx) \<or> files ?idx1 = files idx"
      using kv by (simp add: files_updateFileInIndex)
    have st: "case map_of (files ?idx1) k of None \<Rightarrow> True
        | Some e \<Rightarrow> lastModified e < lastModified r"
      using f1 Cons.prems(5) lt by (auto simp: update_conv')
    have "files (fold updateFileInIndex vs ?idx1) = AList.update k r (files ?idx1)"
      using Cons.prems(1,2,4) rin st by (intro Cons.IH) auto
    with f1 show ?thesis by auto
  qed
qed

text \<open>
  C1. An incoming record replaces the stored one when none is stored for its key or the
  stored one is strictly older, and otherwise the index is left as it is; an update
  whose \<open>lastModified\<close> is at most the stored one changes nothing. So for updates of
  one key with distinct timestamps, applied in any order to an index that holds no
  record for the key or an older one, the stored record is the one with the greatest
  timestamp.
\<close>

theorem updateFileInIndex_last_writer_wins:
  "((map_of (files idx) (key file) = None \<or>
     (\<exists>e. map_of (files idx) (key file) = Some e \<and> lastModified e < lastModified file)) \<longrightarrow>
      files (updateFileInIndex file idx) = AList.update (key file) file (files idx) \<and>
      map_of (files (updateFileInIndex file idx)) (key file) = Some file) \<and>
   (\<forall>e. map_of (files idx) (key file) = Some e \<and> lastModified file \<le> lastModified e \<longrightarrow>
      updateFileInIndex file idx = idx) \<and>
   (\<forall>us vs r k. mset vs = mset us \<and> (\<forall>u \<in> set us. key u = k) \<and>
      distinct (map lastModified us) \<and> r \<in> set us \<and>
      (\<forall>u \<in> set us. lastModified u \<le> lastModified r) \<and>
      (map_of (files idx) k = None \<or>
       (\<exists>e. map_of (files idx) k = Some e \<and> lastModified e < lastModified r)) \<longrightarrow>
      files (fold updateFileInIndex vs idx) = AList.update k r (files idx) \<and>
      map_of (files (fold updateFileInIndex vs idx)) k = Some r)"
proof (intro conjI allI impI)
  assume a: "map_of (files idx) (key file) = None \<or>
     (\<exists>e. map_of (files idx) (key file) = Some e \<and> lastModified e < lastModified file)"
  then have "accepts file idx" by (auto simp: accepts_def)
  then show f: "files (updateFileInIndex file idx) = AList.update (key file) file (files idx)"
    by (simp add: files_updateFileInIndex)
  show "map_of (files (updateFileInIndex file idx)) (key file) = Some file"
    unfolding f by (simp add: update_conv')
next
  fix e :: ReactiveFileMetadata
  assume "map_of (files idx) (key file) = Some e \<and> lastModified file \<le> lastModified e"
  then have "\<not> accepts file idx" by (simp add: accepts_def)
  then show "updateFileInIndex file idx = idx" by (rule updateFileInIndex_stale)
next
  fix us vs :: "ReactiveFileMetadata list" and r :: ReactiveFileMetadata and k :: string
  assume a: "mset vs = mset us \<and> (\<forall>u \<in> set us. key u = k) \<and>
      distinct (map lastModified us) \<and> r \<in> set us \<and>
      (\<forall>u \<in> set us. lastModified u \<le> lastModified r) \<and>
      (map_of (files idx) k = None \<or>
       (\<exists>e. map_of (files idx) k = Some e \<and> lastModified e < lastModified r))"
  then have s: "set vs = set us" by (auto dest: mset_eq_setD)
  from a have "mset (map lastModified vs) = mset (map lastModified us)" by simp
  then have "distinct (map lastModified vs) = distinct (map lastModified us)"
    by (rule mset_eq_imp_distinct_iff)
  with a have d: "distinct (map lastModified vs)" by simp
  from a have st: "case map_of (files idx) k of None \<Rightarrow> True
      | Some e \<Rightarrow> lastModified e < lastModified r"
    by (auto split: option.splits)
  have k: "\<forall>u \<in> set vs. key u = k" and r: "r \<in> set vs"
    and m: "\<forall>u \<in> set vs. lastModified u \<le> lastModified r"
    using a unfolding s by auto
  from k d r m st
  show f: "files (fold updateFileInIndex vs idx) = AList.update k r (files idx)"
    by (rule fold_updateFileInIndex_latest)
  show "map_of (files (fold updateFileInIndex vs idx)) k = Some r"
    unfolding f by (simp add: update_conv')
qed

theorem updateFileInIndex_last_writer_wins_witness:
  "map_of (files (newIndex Public)) (key fileV1) = None \<and>
   files (updateFileInIndex fileV1 (newIndex Public)) = [(''a/x.txt'', fileV1)] \<and>
   map_of (files exampleIndex) (key fileV1) = Some fileV1 \<and> lastModified fileV1 \<le> lastModified fileV1 \<and>
   updateFileInIndex fileV1 exampleIndex = exampleIndex \<and>
   mset [fileV2, fileV3, fileV1] = mset [fileV1, fileV2, fileV3] \<and>
   key fileV1 = ''a/x.txt'' \<and> key fileV2 = ''a/x.txt'' \<and> key fileV3 = ''a/x.txt'' \<and>
   distinct (map lastModified [fileV1, fileV2, fileV3]) \<and> fileV3 \<in> set [fileV1, fileV2, fileV3] \<and>
   lastModified fileV1 \<le> lastModified fileV3 \<and> lastModified fileV2 \<le> lastModified fileV3 \<and>
   map_of (files (newIndex Public)) ''a/x.txt'' = None \<and>
   files (fold updateFileInIndex [fileV2, fileV3, fileV1] (newIndex Public)) = [(''a/x.txt'', fileV3)] \<and>
   files (fold updateFileInIndex [fileV1, fileV2, fileV3] (newIndex Public)) = [(''a/x.txt'', fileV3)]"
proof -
  have h1: "map_of (files (newIndex Public)) (key fileV1) = None"
    by (simp add: newIndex_def)
  have h2: "map_of (files exampleIndex) (key fileV1) = Some fileV1 \<and> lastModified fileV1 \<le> lastModified fileV1"
    by (simp add: exampleIndex_def newIndex_def fileV1_def)
  have h3: "mset [fileV2, fileV3, fileV1] = mset [fileV1, fileV2, fileV3]" by simp
  have h3': "mset [fileV1, fileV2, fileV3] = mset [fileV1, fileV2, fileV3]" by simp
  have h4: "key fileV1 = ''a/x.txt'' \<and> key fileV2 = ''a/x.txt'' \<and> key fileV3 = ''a/x.txt''"
    by (simp add: fileV1_def fileV2_def fileV3_def)
  have h5: "distinct (map lastModified [fileV1, fileV2, fileV3]) \<and> fileV3 \<in> set [fileV1, fileV2, fileV3]"
    by (simp add: fileV1_def fileV2_def fileV3_def)
  have h6: "lastModified fileV1 \<le> lastModified fileV3 \<and> lastModified fileV2 \<le> lastModified fileV3"
    by (simp add: fileV1_def fileV2_def fileV3_def)
  have h7: "map_of (files (newIndex Public)) ''a/x.txt'' = None"
    by (simp add: newIndex_def)
  have hyp: "\<And>vs. mset vs = mset [fileV1, fileV2, fileV3] \<Longrightarrow>
     mset vs = mset [fileV1, fileV2, fileV3] \<and> (\<forall>u \<in> set [fileV1, fileV2, fileV3]. key u = ''a/x.txt'') \<and>
      distinct (map lastModified [fileV1, fileV2, fileV3]) \<and> fileV3 \<in> set [fileV1, fileV2, fileV3] \<and>
      (\<forall>u \<in> set [fileV1, fileV2, fileV3]. lastModified u \<le> lastModified fileV3) \<and>
      (map_of (files (newIndex Public)) ''a/x.txt'' = None \<or>
       (\<exists>e. map_of (files (newIndex Public)) ''a/x.txt'' = Some e \<and>
            lastModified e < lastModified fileV3))"
    using h4 h5 h6 h7 by simp
  note t = updateFileInIndex_last_writer_wins
  have c1: "files (updateFileInIndex fileV1 (newIndex Public)) =
      AList.update (key fileV1) fileV1 (files (newIndex Public))"
    using t [of "newIndex Public" fileV1] h1 by blast
  have c2: "updateFileInIndex fileV1 exampleIndex = exampleIndex"
    using t [of exampleIndex fileV1] h2 by blast
  have c3: "files (fold updateFileInIndex [fileV2, fileV3, fileV1] (newIndex Public)) =
      AList.update ''a/x.txt'' fileV3 (files (newIndex Public))"
    using t [of "newIndex Public" fileV1, THEN conjunct2, THEN conjunct2, rule_format,
        OF hyp [OF h3]] by blast
  have c4: "files (fold updateFileInIndex [fileV1, fileV2, fileV3] (newIndex Public)) =
      AList.update ''a/x.txt'' fileV3 (files (newIndex Public))"
    using t [of "newIndex Public" fileV1, THEN conjunct2, THEN conjunct2, rule_format,
        OF hyp [OF h3']] by blast
  have n: "files (newIndex Public) = []" by (simp add: newIndex_def)
  from c1 h4 have c1': "files (updateFileInIndex fileV1 (newIndex Public)) = [(''a/x.txt'', fileV1)]"
    unfolding n by simp
  from c3 have c3': "files (fold updateFileInIndex [fileV2, fileV3, fileV1] (newIndex Public)) = [(''a/x.txt'', fileV3)]"
    unfolding n by simp
  from c4 have c4': "files (fold updateFileInIndex [fileV1, fileV2, fileV3] (newIndex Public)) = [(''a/x.txt'', fileV3)]"
    unfolding n by simp
  from h1 c1' h2 c2 h3 h4 h5 h6 h7 c3' c4' show ?thesis by blast
qed

section \<open>Facts about the children listeners\<close>

lemma inj_on_entryString:
  assumes "distinct (map fst m)"
  shows "inj_on (\<lambda>(k, v). k @ '',[object Object]'') (set m)"
proof (rule inj_onI)
  fix x y
  assume x: "x \<in> set m" and y: "y \<in> set m"
    and e: "(case x of (k, v) \<Rightarrow> k @ '',[object Object]'') =
            (case y of (k, v) \<Rightarrow> k @ '',[object Object]'')"
  obtain k v where xv: "x = (k, v)" by (cases x)
  obtain k' v' where yv: "y = (k', v')" by (cases y)
  from e have "k = k'" unfolding xv yv by simp
  with x y assms show "x = y" unfolding xv yv
    by (auto dest: eq_key_imp_eq_value)
qed

lemma sortEntries_eq_iff:
  assumes a: "distinct (map fst a)" and b: "distinct (map fst b)"
  shows "sortEntries a = sortEntries b \<longleftrightarrow> set a = set b"
proof
  assume "sortEntries a = sortEntries b"
  then have "set (sortEntries a) = set (sortEntries b)" by simp
  then show "set a = set b" by (simp add: sortEntries_def)
next
  assume s: "set a = set b"
  have da: "distinct a" using a by (rule distinct_map [THEN iffD1, THEN conjunct1])
  have db: "distinct b" using b by (rule distinct_map [THEN iffD1, THEN conjunct1])
  from s da db have m: "mset a = mset b" by (simp add: set_eq_iff_mset_eq_distinct)
  let ?f = "\<lambda>(k, v :: 'a). k @ '',[object Object]''"
  have "sort_key ?f a = sort_key ?f b"
  proof (rule sort_key_inj_key_eq)
    show "mset a = mset (sort_key ?f b)" using m by simp
    show "inj_on ?f (set a)" using a by (rule inj_on_entryString)
    show "sorted (map ?f (sort_key ?f b))" by (rule sorted_sort_key)
  qed
  then show "sortEntries a = sortEntries b" by (simp add: sortEntries_def)
qed

lemma getChildren_files_cong: "files a = files b \<Longrightarrow> getChildren a q = getChildren b q"
  by (simp add: getChildren_def)

lemma lastNotifiedOf_distinct:
  assumes "list_all (\<lambda>(p, m). distinct (map fst m)) (childrenLastNotified idx)"
  shows "distinct (map fst (lastNotifiedOf idx p))"
proof (cases "map_of (childrenLastNotified idx) p")
  case None
  then show ?thesis by (simp add: lastNotifiedOf_def)
next
  case (Some m)
  then have "(p, m) \<in> set (childrenLastNotified idx)" by (rule map_of_SomeD)
  with assms have "distinct (map fst m)" by (auto simp: list_all_iff)
  with Some show ?thesis by (simp add: lastNotifiedOf_def)
qed

lemma updateChildListenersAt_calls:
  assumes "distinct (map fst (files idx))" "distinct (map fst (lastNotifiedOf idx p))"
  shows "calls (updateChildListenersAt p ls idx) = calls idx @ notifyAt idx (p, ls)"
proof -
  have "sortEntries (lastNotifiedOf idx p) = sortEntries (getChildren idx p) \<longleftrightarrow>
      set (lastNotifiedOf idx p) = set (getChildren idx p)"
    using assms(2) distinct_getChildren [OF assms(1)] by (rule sortEntries_eq_iff)
  then show ?thesis
    by (simp add: updateChildListenersAt_def notifyAt_def Let_def lastNotifiedOf_def)
qed

lemma updateChildListenersAt_lastNotified:
  "lastNotifiedOf (updateChildListenersAt p ls idx) q =
     (if q = p then getChildren idx p else lastNotifiedOf idx q)"
  by (simp add: updateChildListenersAt_def Let_def lastNotifiedOf_def update_conv')

lemma fold_updateChildListenersAt:
  "distinct (map fst xs) \<Longrightarrow> distinct (map fst (files idx)) \<Longrightarrow>
   \<forall>p \<in> fst ` set xs. distinct (map fst (lastNotifiedOf idx p)) \<Longrightarrow>
   calls (fold (\<lambda>(k, ls). updateChildListenersAt k ls) xs idx) =
     calls idx @ concat (map (notifyAt idx) xs) \<and>
   (\<forall>q. lastNotifiedOf (fold (\<lambda>(k, ls). updateChildListenersAt k ls) xs idx) q =
     (if q \<in> fst ` set xs then getChildren idx q else lastNotifiedOf idx q))"
proof (induction xs arbitrary: idx)
  case Nil
  show ?case by simp
next
  case (Cons x xs)
  obtain p ls where x: "x = (p, ls)" by (cases x)
  let ?idx1 = "updateChildListenersAt p ls idx"
  have pn: "p \<notin> fst ` set xs" and dx: "distinct (map fst xs)"
    using Cons.prems(1) x by auto
  have f1: "files ?idx1 = files idx" by (rule updateChildListenersAt_frame)
  have gc: "\<And>q. getChildren ?idx1 q = getChildren idx q"
    using f1 by (rule getChildren_files_cong)
  have c1: "calls ?idx1 = calls idx @ notifyAt idx (p, ls)"
    using Cons.prems(2,3) x by (intro updateChildListenersAt_calls) auto
  have ln: "\<And>q. q \<noteq> p \<Longrightarrow> lastNotifiedOf ?idx1 q = lastNotifiedOf idx q"
    by (simp add: updateChildListenersAt_lastNotified)
  have same: "map (notifyAt ?idx1) xs = map (notifyAt idx) xs"
  proof (rule map_cong [OF refl])
    fix y assume y: "y \<in> set xs"
    obtain q ls' where yq: "y = (q, ls')" by (cases y)
    with y pn have "q \<noteq> p" by force
    then show "notifyAt ?idx1 y = notifyAt idx y"
      unfolding yq by (simp add: notifyAt_def gc ln)
  qed
  have d1: "distinct (map fst (files ?idx1))" using Cons.prems(2) f1 by simp
  have l1: "\<forall>q \<in> fst ` set xs. distinct (map fst (lastNotifiedOf ?idx1 q))"
  proof
    fix q assume q: "q \<in> fst ` set xs"
    with pn have "q \<noteq> p" by auto
    then have "lastNotifiedOf ?idx1 q = lastNotifiedOf idx q" by (rule ln)
    moreover have "distinct (map fst (lastNotifiedOf idx q))"
      using Cons.prems(3) q by auto
    ultimately show "distinct (map fst (lastNotifiedOf ?idx1 q))" by simp
  qed
  note ih = Cons.IH [OF dx d1 l1]
  have calls: "calls (fold (\<lambda>(k, ls). updateChildListenersAt k ls) (x # xs) idx) =
      calls idx @ concat (map (notifyAt idx) (x # xs))"
    using ih c1 same x by simp
  have last: "\<forall>q. lastNotifiedOf (fold (\<lambda>(k, ls). updateChildListenersAt k ls) (x # xs) idx) q =
      (if q \<in> fst ` set (x # xs) then getChildren idx q else lastNotifiedOf idx q)"
  proof
    fix q
    show "lastNotifiedOf (fold (\<lambda>(k, ls). updateChildListenersAt k ls) (x # xs) idx) q =
      (if q \<in> fst ` set (x # xs) then getChildren idx q else lastNotifiedOf idx q)"
      using ih x gc by (simp add: updateChildListenersAt_lastNotified)
  qed
  from calls last show ?case by blast
qed

lemma updateChildListeners_calls:
  assumes "wellFormed idx"
  shows "calls (updateChildListeners idx) = calls idx @ childrenNotifications idx"
    and "\<forall>q. lastNotifiedOf (updateChildListeners idx) q =
      (if q \<in> fst ` set (childrenListeners idx) then getChildren idx q else lastNotifiedOf idx q)"
proof -
  have d: "distinct (map fst (childrenListeners idx))" "distinct (map fst (files idx))"
    using assms by (simp_all add: wellFormed_def)
  have l: "\<forall>p \<in> fst ` set (childrenListeners idx). distinct (map fst (lastNotifiedOf idx p))"
    using assms by (simp add: wellFormed_def lastNotifiedOf_distinct)
  note f = fold_updateChildListenersAt [OF d l]
  have n: "childrenNotifications idx = concat (map (notifyAt idx) (childrenListeners idx))"
    by (simp add: childrenNotifications_def notifyAt_def)
  from f show "calls (updateChildListeners idx) = calls idx @ childrenNotifications idx"
    unfolding updateChildListeners_def n by blast
  from f show "\<forall>q. lastNotifiedOf (updateChildListeners idx) q =
      (if q \<in> fst ` set (childrenListeners idx) then getChildren idx q else lastNotifiedOf idx q)"
    unfolding updateChildListeners_def by blast
qed

lemma childrenNotifications_cong:
  assumes "files a = files b" "childrenListeners a = childrenListeners b"
    "childrenLastNotified a = childrenLastNotified b"
  shows "childrenNotifications a = childrenNotifications b"
proof -
  have g: "\<And>p. getChildren a p = getChildren b p"
    using assms(1) by (rule getChildren_files_cong)
  have l: "\<And>p. lastNotifiedOf a p = lastNotifiedOf b p"
    using assms(3) by (simp add: lastNotifiedOf_def)
  show ?thesis unfolding childrenNotifications_def g l assms(2) by (rule refl)
qed

lemma wellFormed_files:
  "wellFormed idx \<Longrightarrow> distinct (map fst fs) \<Longrightarrow>
   wellFormed (idx\<lparr>files := fs, calls := cs\<rparr>)"
  by (simp add: wellFormed_def)

lemma deleteFileInIndex_calls:
  assumes "wellFormed idx"
  shows "calls (deleteFileInIndex pth idx) =
    calls idx @
    map (\<lambda>l. MetadataCall l None)
      (case map_of (metadataListeners idx) pth of None \<Rightarrow> [] | Some ls \<Rightarrow> ls) @
    childrenNotifications (idx\<lparr>files := AList.delete pth (files idx)\<rparr>)"
proof -
  let ?cs = "calls idx @ map (\<lambda>l. MetadataCall l None)
      (case map_of (metadataListeners idx) pth of None \<Rightarrow> [] | Some ls \<Rightarrow> ls)"
  let ?idx2 = "idx\<lparr>files := AList.delete pth (files idx), calls := ?cs\<rparr>"
  have "distinct (map fst (AList.delete pth (files idx)))"
    using assms by (simp add: wellFormed_def distinct_delete)
  with assms have w: "wellFormed ?idx2" by (rule wellFormed_files)
  have d: "deleteFileInIndex pth idx = updateChildListeners ?idx2"
    by (simp add: deleteFileInIndex_def Let_def)
  have "childrenNotifications ?idx2 =
      childrenNotifications (idx\<lparr>files := AList.delete pth (files idx)\<rparr>)"
    by (rule childrenNotifications_cong) simp_all
  with updateChildListeners_calls(1) [OF w] show ?thesis unfolding d by simp
qed

lemma updateFileInIndex_calls:
  assumes "wellFormed idx" "accepts file idx"
  shows "calls (updateFileInIndex file idx) =
    calls idx @
    map (\<lambda>l. MetadataCall l (Some file))
      (case map_of (metadataListeners idx) (key file) of None \<Rightarrow> [] | Some ls \<Rightarrow> ls) @
    childrenNotifications (idx\<lparr>files := AList.update (key file) file (files idx)\<rparr>)"
proof -
  let ?cs = "calls idx @ map (\<lambda>l. MetadataCall l (Some file))
      (case map_of (metadataListeners idx) (key file) of None \<Rightarrow> [] | Some ls \<Rightarrow> ls)"
  let ?idx2 = "idx\<lparr>files := AList.update (key file) file (files idx), calls := ?cs\<rparr>"
  have "distinct (map fst (AList.update (key file) file (files idx)))"
    using assms(1) by (simp add: wellFormed_def distinct_update)
  with assms(1) have w: "wellFormed ?idx2" by (rule wellFormed_files)
  have d: "updateFileInIndex file idx = updateChildListeners ?idx2"
    using assms(2) by (simp add: updateFileInIndex_def accepts_def Let_def)
  have "childrenNotifications ?idx2 =
      childrenNotifications (idx\<lparr>files := AList.update (key file) file (files idx)\<rparr>)"
    by (rule childrenNotifications_cong) simp_all
  with updateChildListeners_calls(1) [OF w] show ?thesis unfolding d by simp
qed

lemmas scenario_defs =
  updateFileInIndex_def addChildrenListener_def addListener_def newIndex_def
  updateChildListeners_def updateChildListenersAt_def getChildren_def sortEntries_def
  startsWith_def endsWith_def suffix_to_prefix Let_def

lemma scenario_first:
  "updateFileInIndex \<lparr>key = ''a/x.txt'', lastModified = t, size_bytes = s\<rparr>
     (addChildrenListener ''a'' l (newIndex lv)) =
   (newIndex lv)\<lparr>files := [(''a/x.txt'', \<lparr>key = ''a/x.txt'', lastModified = t, size_bytes = s\<rparr>)],
     childrenListeners := [(''a'', [l])],
     childrenLastNotified :=
       [(''a'', [(''x.txt'', \<lparr>key = ''a/x.txt'', lastModified = t, size_bytes = s\<rparr>)])],
     calls := [ChildrenCall l [(''x.txt'', \<lparr>key = ''a/x.txt'', lastModified = t, size_bytes = s\<rparr>)]]\<rparr>"
  by (simp add: scenario_defs)

lemma scenario_later:
  assumes "t < t'"
  shows "calls (updateFileInIndex \<lparr>key = ''a/x.txt'', lastModified = t', size_bytes = s'\<rparr>
     (updateFileInIndex \<lparr>key = ''a/x.txt'', lastModified = t, size_bytes = s\<rparr>
       (addChildrenListener ''a'' l (newIndex lv)))) =
   [ChildrenCall l [(''x.txt'', \<lparr>key = ''a/x.txt'', lastModified = t, size_bytes = s\<rparr>)],
    ChildrenCall l [(''x.txt'', \<lparr>key = ''a/x.txt'', lastModified = t', size_bytes = s'\<rparr>)]]"
  unfolding scenario_first using assms
  by (simp add: updateFileInIndex_def updateChildListeners_def updateChildListenersAt_def
      getChildren_def sortEntries_def startsWith_def endsWith_def suffix_to_prefix Let_def
      newIndex_def)

lemma scenario_not_later:
  assumes "t' \<le> t"
  shows "updateFileInIndex \<lparr>key = ''a/x.txt'', lastModified = t', size_bytes = s'\<rparr>
     (updateFileInIndex \<lparr>key = ''a/x.txt'', lastModified = t, size_bytes = s\<rparr>
       (addChildrenListener ''a'' l (newIndex lv))) =
     updateFileInIndex \<lparr>key = ''a/x.txt'', lastModified = t, size_bytes = s\<rparr>
       (addChildrenListener ''a'' l (newIndex lv))"
  unfolding scenario_first using assms
  by (simp add: updateFileInIndex_def newIndex_def)

lemma set_update_subset: "set (AList.update k v al) \<subseteq> insert (k, v) (set al)"
  by (induction al) auto

lemma wellFormed_newIndex: "wellFormed (newIndex lv)"
  by (simp add: wellFormed_def newIndex_def)

lemma wellFormed_updateChildListenersAt:
  assumes "wellFormed idx"
  shows "wellFormed (updateChildListenersAt p ls idx)"
proof -
  have d: "distinct (map fst (files idx))" using assms by (simp add: wellFormed_def)
  have g: "distinct (map fst (getChildren idx p))" using d by (rule distinct_getChildren)
  have "list_all (\<lambda>(p, m). distinct (map fst m))
      (AList.update p (getChildren idx p) (childrenLastNotified idx))"
    unfolding list_all_iff
  proof
    fix x assume "x \<in> set (AList.update p (getChildren idx p) (childrenLastNotified idx))"
    with set_update_subset have "x = (p, getChildren idx p) \<or> x \<in> set (childrenLastNotified idx)"
      by fastforce
    with g assms show "case x of (p, m) \<Rightarrow> distinct (map fst m)"
      by (auto simp: wellFormed_def list_all_iff)
  qed
  with assms show ?thesis
    by (simp add: wellFormed_def updateChildListenersAt_def Let_def distinct_update)
qed

lemma wellFormed_updateChildListeners:
  "wellFormed idx \<Longrightarrow> wellFormed (updateChildListeners idx)"
proof -
  have "wellFormed idx \<Longrightarrow>
      wellFormed (fold (\<lambda>(k, ls). updateChildListenersAt k ls) xs idx)" for xs
    by (induction xs arbitrary: idx) (auto simp: wellFormed_updateChildListenersAt)
  then show "wellFormed idx \<Longrightarrow> wellFormed (updateChildListeners idx)"
    by (simp add: updateChildListeners_def)
qed

lemma wellFormed_updateFileInIndex:
  assumes "wellFormed idx"
  shows "wellFormed (updateFileInIndex file idx)"
proof (cases "accepts file idx")
  case False
  then have "updateFileInIndex file idx = idx" by (rule updateFileInIndex_stale)
  with assms show ?thesis by simp
next
  case True
  let ?cs = "calls idx @ map (\<lambda>l. MetadataCall l (Some file))
      (case map_of (metadataListeners idx) (key file) of None \<Rightarrow> [] | Some ls \<Rightarrow> ls)"
  let ?idx2 = "idx\<lparr>files := AList.update (key file) file (files idx), calls := ?cs\<rparr>"
  have "distinct (map fst (AList.update (key file) file (files idx)))"
    using assms by (simp add: wellFormed_def distinct_update)
  with assms have "wellFormed ?idx2" by (rule wellFormed_files)
  then have "wellFormed (updateChildListeners ?idx2)" by (rule wellFormed_updateChildListeners)
  moreover have "updateFileInIndex file idx = updateChildListeners ?idx2"
    using True by (simp add: updateFileInIndex_def accepts_def Let_def)
  ultimately show ?thesis by simp
qed

lemma wellFormed_deleteFileInIndex:
  assumes "wellFormed idx"
  shows "wellFormed (deleteFileInIndex pth idx)"
proof -
  let ?cs = "calls idx @ map (\<lambda>l. MetadataCall l None)
      (case map_of (metadataListeners idx) pth of None \<Rightarrow> [] | Some ls \<Rightarrow> ls)"
  let ?idx2 = "idx\<lparr>files := AList.delete pth (files idx), calls := ?cs\<rparr>"
  have "distinct (map fst (AList.delete pth (files idx)))"
    using assms by (simp add: wellFormed_def distinct_delete)
  with assms have "wellFormed ?idx2" by (rule wellFormed_files)
  then have "wellFormed (updateChildListeners ?idx2)" by (rule wellFormed_updateChildListeners)
  moreover have "deleteFileInIndex pth idx = updateChildListeners ?idx2"
    by (simp add: deleteFileInIndex_def Let_def)
  ultimately show ?thesis by simp
qed

lemma distinct_addListener: "distinct (map fst m) \<Longrightarrow> distinct (map fst (addListener p l m))"
  by (simp add: addListener_def Let_def distinct_update split: option.splits)

lemma distinct_removeListener: "distinct (map fst m) \<Longrightarrow> distinct (map fst (removeListener p l m))"
  by (simp add: removeListener_def distinct_update split: option.splits)

lemma wellFormed_listeners:
  "wellFormed idx \<Longrightarrow> wellFormed (addChildrenListener p l idx)"
  "wellFormed idx \<Longrightarrow> wellFormed (removeChildrenListener p l idx)"
  "wellFormed idx \<Longrightarrow> wellFormed (addMetadataListener p l idx)"
  "wellFormed idx \<Longrightarrow> wellFormed (removeMetadataListener p l idx)"
  by (simp_all add: wellFormed_def addChildrenListener_def removeChildrenListener_def
      addMetadataListener_def removeMetadataListener_def distinct_addListener
      distinct_removeListener)

text \<open>
  C4 (as amended). Every run of \<open>_updateChildListeners\<close> calls, for each registered
  path, the listeners of that path exactly when the current children differ, as a set of
  entries (whatever their order), from the snapshot last compared, and stores the current
  children as the new snapshot. A delete always runs it, an update runs it when the
  record is accepted and otherwise changes nothing. With a listener registered on \<open>a\<close>,
  re-applying the update of \<open>a/x.txt\<close> with identical metadata leaves the whole index,
  and so the call trace, unchanged; applying it with a strictly later \<open>lastModified\<close>
  (and any size) adds exactly one call of the listener.
\<close>

theorem children_listeners_change_detected:
  "wellFormed idx \<Longrightarrow>
   calls (updateChildListeners idx) = calls idx @ childrenNotifications idx \<and>
   (\<forall>q. lastNotifiedOf (updateChildListeners idx) q =
      (if q \<in> fst ` set (childrenListeners idx) then getChildren idx q
       else lastNotifiedOf idx q)) \<and>
   calls (deleteFileInIndex pth idx) =
     calls idx @
     map (\<lambda>l. MetadataCall l None)
       (case map_of (metadataListeners idx) pth of None \<Rightarrow> [] | Some ls \<Rightarrow> ls) @
     childrenNotifications (idx\<lparr>files := AList.delete pth (files idx)\<rparr>) \<and>
   (accepts file idx \<longrightarrow>
      calls (updateFileInIndex file idx) =
        calls idx @
        map (\<lambda>l. MetadataCall l (Some file))
          (case map_of (metadataListeners idx) (key file) of None \<Rightarrow> [] | Some ls \<Rightarrow> ls) @
        childrenNotifications (idx\<lparr>files := AList.update (key file) file (files idx)\<rparr>)) \<and>
   (\<not> accepts file idx \<longrightarrow> updateFileInIndex file idx = idx) \<and>
   updateFileInIndex \<lparr>key = ''a/x.txt'', lastModified = t, size_bytes = s\<rparr>
     (updateFileInIndex \<lparr>key = ''a/x.txt'', lastModified = t, size_bytes = s\<rparr>
       (addChildrenListener ''a'' l (newIndex lv))) =
     updateFileInIndex \<lparr>key = ''a/x.txt'', lastModified = t, size_bytes = s\<rparr>
       (addChildrenListener ''a'' l (newIndex lv)) \<and>
   (t < t' \<longrightarrow>
      calls (updateFileInIndex \<lparr>key = ''a/x.txt'', lastModified = t', size_bytes = s'\<rparr>
        (updateFileInIndex \<lparr>key = ''a/x.txt'', lastModified = t, size_bytes = s\<rparr>
          (addChildrenListener ''a'' l (newIndex lv)))) =
      calls (updateFileInIndex \<lparr>key = ''a/x.txt'', lastModified = t, size_bytes = s\<rparr>
          (addChildrenListener ''a'' l (newIndex lv))) @
      [ChildrenCall l [(''x.txt'', \<lparr>key = ''a/x.txt'', lastModified = t', size_bytes = s'\<rparr>)]])"
proof (intro conjI impI)
  assume w: "wellFormed idx"
  show "calls (updateChildListeners idx) = calls idx @ childrenNotifications idx"
    using w by (rule updateChildListeners_calls(1))
  show "\<forall>q. lastNotifiedOf (updateChildListeners idx) q =
      (if q \<in> fst ` set (childrenListeners idx) then getChildren idx q
       else lastNotifiedOf idx q)"
    using w by (rule updateChildListeners_calls(2))
  show "calls (deleteFileInIndex pth idx) =
     calls idx @
     map (\<lambda>l. MetadataCall l None)
       (case map_of (metadataListeners idx) pth of None \<Rightarrow> [] | Some ls \<Rightarrow> ls) @
     childrenNotifications (idx\<lparr>files := AList.delete pth (files idx)\<rparr>)"
    using w by (rule deleteFileInIndex_calls)
  show "updateFileInIndex \<lparr>key = ''a/x.txt'', lastModified = t, size_bytes = s\<rparr>
     (updateFileInIndex \<lparr>key = ''a/x.txt'', lastModified = t, size_bytes = s\<rparr>
       (addChildrenListener ''a'' l (newIndex lv))) =
     updateFileInIndex \<lparr>key = ''a/x.txt'', lastModified = t, size_bytes = s\<rparr>
       (addChildrenListener ''a'' l (newIndex lv))"
    by (rule scenario_not_later) simp
next
  assume "wellFormed idx" "accepts file idx"
  then show "calls (updateFileInIndex file idx) =
        calls idx @
        map (\<lambda>l. MetadataCall l (Some file))
          (case map_of (metadataListeners idx) (key file) of None \<Rightarrow> [] | Some ls \<Rightarrow> ls) @
        childrenNotifications (idx\<lparr>files := AList.update (key file) file (files idx)\<rparr>)"
    by (rule updateFileInIndex_calls)
next
  assume "\<not> accepts file idx"
  then show "updateFileInIndex file idx = idx" by (rule updateFileInIndex_stale)
next
  assume "t < t'"
  then show "calls (updateFileInIndex \<lparr>key = ''a/x.txt'', lastModified = t', size_bytes = s'\<rparr>
        (updateFileInIndex \<lparr>key = ''a/x.txt'', lastModified = t, size_bytes = s\<rparr>
          (addChildrenListener ''a'' l (newIndex lv)))) =
      calls (updateFileInIndex \<lparr>key = ''a/x.txt'', lastModified = t, size_bytes = s\<rparr>
          (addChildrenListener ''a'' l (newIndex lv))) @
      [ChildrenCall l [(''x.txt'', \<lparr>key = ''a/x.txt'', lastModified = t', size_bytes = s'\<rparr>)]]"
    by (simp add: scenario_later) (simp add: scenario_first)
qed

text \<open>
  An update of \<open>a/x.txt\<close> that differs from the stored record in its size only (same
  \<open>lastModified\<close>) is discarded by the last-writer-wins guard: the listener is not
  called again.
\<close>

theorem children_listeners_same_timestamp_counterexample:
  "size_bytes \<lparr>key = ''a/x.txt'', lastModified = 1000, size_bytes = 20\<rparr> \<noteq> size_bytes fileV1 \<and>
   calls listenerIndex = [ChildrenCall 7 [(''x.txt'', fileV1)]] \<and>
   calls (updateFileInIndex \<lparr>key = ''a/x.txt'', lastModified = 1000, size_bytes = 20\<rparr>
      listenerIndex) = [ChildrenCall 7 [(''x.txt'', fileV1)]]"
  by (simp add: listenerIndex_def fileV1_def scenario_first)
    (simp add: updateFileInIndex_def newIndex_def)

theorem children_listeners_change_detected_witness:
  "wellFormed listenerIndex \<and>
   calls (updateChildListeners listenerIndex) =
     calls listenerIndex @ childrenNotifications listenerIndex \<and>
   childrenNotifications listenerIndex = [] \<and>
   accepts fileV2 listenerIndex \<and>
   calls (updateFileInIndex fileV2 listenerIndex) =
     calls listenerIndex @
     childrenNotifications (listenerIndex\<lparr>files := AList.update (key fileV2) fileV2 (files listenerIndex)\<rparr>) \<and>
   \<not> accepts fileV1 listenerIndex \<and>
   updateFileInIndex fileV1 listenerIndex = listenerIndex \<and>
   (1000 :: int) < 2000 \<and>
   calls (updateFileInIndex fileV2 listenerIndex) =
     [ChildrenCall 7 [(''x.txt'', fileV1)], ChildrenCall 7 [(''x.txt'', fileV2)]]"
proof -
  have li: "listenerIndex =
   (newIndex Public)\<lparr>files := [(''a/x.txt'', fileV1)],
     childrenListeners := [(''a'', [7])],
     childrenLastNotified := [(''a'', [(''x.txt'', fileV1)])],
     calls := [ChildrenCall 7 [(''x.txt'', fileV1)]]\<rparr>"
    by (simp add: listenerIndex_def fileV1_def scenario_first)
  have w: "wellFormed listenerIndex"
    by (simp add: li wellFormed_def newIndex_def)
  have a2: "accepts fileV2 listenerIndex"
    by (simp add: li accepts_def fileV1_def fileV2_def)
  have a1: "\<not> accepts fileV1 listenerIndex"
    by (simp add: li accepts_def fileV1_def)
  have lt: "(1000 :: int) < 2000" by simp
  have n: "childrenNotifications listenerIndex = []"
    by (simp add: li childrenNotifications_def lastNotifiedOf_def getChildren_def
        startsWith_def endsWith_def suffix_to_prefix newIndex_def)
  have ml: "map_of (metadataListeners listenerIndex) (key fileV2) = None"
    by (simp add: li newIndex_def)
  note t = children_listeners_change_detected
    [OF w, of _ fileV2 1000 10 7 Public 2000 20]
  from t have c1: "calls (updateChildListeners listenerIndex) =
     calls listenerIndex @ childrenNotifications listenerIndex" by blast
  from t a2 have "calls (updateFileInIndex fileV2 listenerIndex) =
        calls listenerIndex @
        map (\<lambda>l. MetadataCall l (Some fileV2))
          (case map_of (metadataListeners listenerIndex) (key fileV2) of
             None \<Rightarrow> [] | Some ls \<Rightarrow> ls) @
        childrenNotifications
          (listenerIndex\<lparr>files := AList.update (key fileV2) fileV2 (files listenerIndex)\<rparr>)"
    by blast
  then have c2: "calls (updateFileInIndex fileV2 listenerIndex) =
     calls listenerIndex @
     childrenNotifications (listenerIndex\<lparr>files := AList.update (key fileV2) fileV2 (files listenerIndex)\<rparr>)"
    unfolding ml by simp
  from children_listeners_change_detected [OF w, of _ fileV1 1000 10 7 Public 2000 20] a1
  have c3: "updateFileInIndex fileV1 listenerIndex = listenerIndex" by blast
  from t lt have "calls (updateFileInIndex \<lparr>key = ''a/x.txt'', lastModified = 2000, size_bytes = 20\<rparr>
        (updateFileInIndex \<lparr>key = ''a/x.txt'', lastModified = 1000, size_bytes = 10\<rparr>
          (addChildrenListener ''a'' 7 (newIndex Public)))) =
      calls (updateFileInIndex \<lparr>key = ''a/x.txt'', lastModified = 1000, size_bytes = 10\<rparr>
          (addChildrenListener ''a'' 7 (newIndex Public))) @
      [ChildrenCall 7 [(''x.txt'', \<lparr>key = ''a/x.txt'', lastModified = 2000, size_bytes = 20\<rparr>)]]"
    by blast
  then have "calls (updateFileInIndex fileV2 listenerIndex) =
      calls listenerIndex @ [ChildrenCall 7 [(''x.txt'', fileV2)]]"
    by (simp add: listenerIndex_def fileV1_def fileV2_def)
  then have c4: "calls (updateFileInIndex fileV2 listenerIndex) =
     [ChildrenCall 7 [(''x.txt'', fileV1)], ChildrenCall 7 [(''x.txt'', fileV2)]]"
    by (simp add: li)
  from w c1 n a2 c2 a1 c3 lt c4 show ?thesis by blast
qed

section \<open>Facts about JSON documents\<close>

lemma map_of_objectSet: "map_of (objectSet k v obj) = (map_of obj)(k \<mapsto> v)"
proof (cases "map_of obj k \<noteq> None")
  case True
  then show ?thesis by (simp add: objectSet_def update_conv')
next
  case False
  then have n: "map_of obj k = None" by simp
  show ?thesis
  proof (cases "arrayIndex k")
    case None
    with n show ?thesis
      by (auto simp: objectSet_def map_add_def fun_eq_iff split: option.splits)
  next
    case (Some i)
    let ?P = "indexBefore i"
    have s: "objectSet k v obj = takeWhile ?P obj @ (k, v) # dropWhile ?P obj"
      using n Some by (simp add: objectSet_def)
    have "map_of obj = map_of (takeWhile ?P obj @ dropWhile ?P obj)" by simp
    then have o: "map_of obj = map_of (dropWhile ?P obj) ++ map_of (takeWhile ?P obj)"
      unfolding map_of_append .
    have "k \<notin> fst ` set obj" using n by (simp add: map_of_eq_None_iff)
    moreover have "set (takeWhile ?P obj) \<subseteq> set obj" by (auto dest: set_takeWhileD)
    ultimately have "k \<notin> fst ` set (takeWhile ?P obj)" by auto
    then have t: "map_of (takeWhile ?P obj) k = None" by (simp add: map_of_eq_None_iff)
    show ?thesis unfolding s o using t
      by (auto simp: map_add_def fun_eq_iff split: option.splits)
  qed
qed

lemma keys_objectSet: "fst ` set (objectSet k v obj) = insert k (fst ` set obj)"
proof -
  have "dom (map_of (objectSet k v obj)) = insert k (dom (map_of obj))"
    unfolding map_of_objectSet by simp
  then show ?thesis by (simp add: dom_map_of_conv_image_fst)
qed





lemma stringify_Obj: "stringify (Obj es) = Some (stringifyObject es)"
proof -
  have "List.map_filter (\<lambda>(k, j). map_option (Pair k) j) (map (map_prod id stringify) es) =
      List.map_filter (\<lambda>(k, v). map_option (Pair k) (stringify v)) es"
    by (induction es) (auto split: option.splits)
  then show ?thesis by (simp add: stringifyObject_def)
qed




lemma valueMap_setAttribute:
  "valueMap (doc (setAttribute k v w)) = AList.update k v (valueMap (doc w))"
  by (simp add: setAttribute_def restartUploadTimer_def setTimeout_def clearTimeout_def Let_def
      split: option.splits)

text \<open>
  C9. \<open>getAttribute(key, default)\<close> returns the default when the stored value is \<open>null\<close>
  or \<open>undefined\<close> or the key is absent, and the stored value otherwise; after
  \<open>setAttribute(key, null)\<close> it returns the default, and a stored \<open>null\<close> reads exactly
  as an absent key does.
\<close>

theorem getAttribute_null_is_default:
  "getAttribute k d file =
     (case map_of (valueMap file) k of
        None \<Rightarrow> d
      | Some v \<Rightarrow> if v = Null \<or> v = Undefined then d else v) \<and>
   (map_of (valueMap file) k = None \<longrightarrow> getAttribute k d file = d) \<and>
   getAttribute k d (doc (setAttribute k Null w)) = d \<and>
   getAttribute k d (file\<lparr>valueMap := AList.update k Null (valueMap file)\<rparr>) =
     getAttribute k d (file\<lparr>valueMap := AList.delete k (valueMap file)\<rparr>)"
  by (simp add: getAttribute_def Let_def valueMap_setAttribute update_conv' delete_conv'
      split: option.splits)

theorem getAttribute_null_is_default_witness:
  "map_of (valueMap (newJsonFile ''_subject.json'')) ''massKg'' = None \<and>
   getAttribute ''massKg'' (Num 0) (newJsonFile ''_subject.json'') = Num 0 \<and>
   getAttribute ''massKg'' (Num 0)
     (doc (setAttribute ''massKg'' Null (newWorld ''_subject.json''))) = Num 0 \<and>
   getAttribute ''massKg'' (Num 0)
     (doc (setAttribute ''massKg'' (Num 70) (newWorld ''_subject.json''))) = Num 70"
proof -
  have h: "map_of (valueMap (newJsonFile ''_subject.json'')) ''massKg'' = None"
    by (simp add: newJsonFile_def)
  note t = getAttribute_null_is_default
    [of "''massKg''" "Num 0" "newJsonFile ''_subject.json''" "newWorld ''_subject.json''"]
  from t h have c1: "getAttribute ''massKg'' (Num 0) (newJsonFile ''_subject.json'') = Num 0"
    by blast
  from t have c2: "getAttribute ''massKg'' (Num 0)
     (doc (setAttribute ''massKg'' Null (newWorld ''_subject.json''))) = Num 0"
    by blast
  have v: "map_of (valueMap (doc (setAttribute ''massKg'' (Num 70) (newWorld ''_subject.json''))))
      ''massKg'' = Some (Num 70)"
    by (simp add: valueMap_setAttribute update_conv')
  have c3: "getAttribute ''massKg'' (Num 0)
     (doc (setAttribute ''massKg'' (Num 70) (newWorld ''_subject.json''))) = Num 70"
    using getAttribute_null_is_default
      [of "''massKg''" "Num 0"
        "doc (setAttribute ''massKg'' (Num 70) (newWorld ''_subject.json''))",
        THEN conjunct1]
    unfolding v by simp
  from h c1 c2 c3 show ?thesis by blast
qed





lemma listenerCalls_append: "listenerCalls (xs @ ys) = listenerCalls xs @ listenerCalls ys"
  by (simp add: listenerCalls_def)





lemma run_append: "run (xs @ ys) w = run ys (run xs w)"
  by (simp add: run_def)





lemma uploadedJson_example:
  "uploadedJson [(''b'', Num 1), (''10'', Num 2), (''2'', Num 3), (''a'', Undefined)] =
     JObj [(''2'', JNum 3), (''10'', JNum 2), (''b'', JNum 1)]"
  by code_simp



section \<open>Facts about folders\<close>

lemma contributors_snoc:
  "contributors of' (xs @ [x]) n = contributors of' xs n @ contributors of' [x] n"
  by (simp add: contributors_def)

lemma folderOf_single: "folderOf n [(k, f)] =
    \<lparr>key = n, lastModified = lastModified f, size_bytes = size_bytes f\<rparr>"
  by (simp add: folderOf_def)

lemma folderOf_snoc:
  assumes "ch \<noteq> []"
  shows "folderOf n (ch @ [(k, f)]) =
    \<lparr>key = n,
     lastModified = (if lastModified f > lastModified (folderOf n ch)
                     then lastModified f else lastModified (folderOf n ch)),
     size_bytes = size_bytes f + size_bytes (folderOf n ch)\<rparr>"
proof -
  let ?A = "set (map (lastModified \<circ> snd) ch)"
  have fin: "finite ?A" and ne: "?A \<noteq> {}" using assms by simp_all
  have "Max (set (map (lastModified \<circ> snd) (ch @ [(k, f)]))) = Max (insert (lastModified f) ?A)"
    by simp
  also have "\<dots> = max (lastModified f) (Max ?A)" using fin ne by (rule Max_insert)
  finally show ?thesis by (simp add: folderOf_def max_def not_less)
qed

lemma folders_fold:
  "distinct (map fst (fold (folderStep of') xs [])) \<and>
   (\<forall>n. map_of (fold (folderStep of') xs []) n =
      (if contributors of' xs n = [] then None else Some (folderOf n (contributors of' xs n))))"
proof (induction xs rule: rev_induct)
  case Nil
  show ?case by (simp add: contributors_def)
next
  case (snoc x xs)
  let ?G = "fold (folderStep of') xs []"
  obtain k f where x: "x = (k, f)" by (cases x)
  have d: "distinct (map fst ?G)"
    and m: "\<And>n. map_of ?G n =
      (if contributors of' xs n = [] then None else Some (folderOf n (contributors of' xs n)))"
    using snoc by simp_all
  have g: "fold (folderStep of') (xs @ [x]) [] = folderStep of' (k, f) ?G" using x by simp
  show ?case
  proof (cases "\<not> startsWith k of' \<or> k = of'")
    case True
    then have c: "\<And>n. contributors of' [x] n = []" using x by (auto simp: contributors_def)
    have "folderStep of' (k, f) ?G = ?G" using True by (simp add: folderStep_def)
    with d m show ?thesis unfolding g contributors_snoc c by simp
  next
    case False
    let ?m = "hd (split CHR ''/'' (drop (length of') k))"
    have c: "\<And>n. contributors of' [x] n = (if n = ?m then [(k, f)] else [])"
      using False x by (auto simp: contributors_def)
    show ?thesis
    proof (cases "contributors of' xs ?m = []")
      case True
      then have none: "map_of ?G ?m = None" by (simp add: m)
      have s: "folderStep of' (k, f) ?G =
          AList.update ?m \<lparr>key = ?m, lastModified = lastModified f, size_bytes = size_bytes f\<rparr> ?G"
        using False none by (simp add: folderStep_def Let_def)
      have d': "distinct (map fst (folderStep of' (k, f) ?G))"
        unfolding s using d by (rule distinct_update)
      have m': "\<forall>n. map_of (folderStep of' (k, f) ?G) n =
          (if contributors of' (xs @ [x]) n = [] then None
           else Some (folderOf n (contributors of' (xs @ [x]) n)))"
        unfolding s contributors_snoc c using True
        by (simp add: update_conv' m folderOf_single)
      from d' m' show ?thesis unfolding g by blast
    next
      case False2: False
      then have some: "map_of ?G ?m = Some (folderOf ?m (contributors of' xs ?m))"
        by (simp add: m)
      let ?e = "folderOf ?m (contributors of' xs ?m)"
      have s: "folderStep of' (k, f) ?G =
          AList.update ?m \<lparr>key = ?m,
             lastModified = (if lastModified f > lastModified ?e then lastModified f
                             else lastModified ?e),
             size_bytes = size_bytes f + size_bytes ?e\<rparr> ?G"
        using False some by (simp add: folderStep_def Let_def)
      have d': "distinct (map fst (folderStep of' (k, f) ?G))"
        unfolding s using d by (rule distinct_update)
      have m': "\<forall>n. map_of (folderStep of' (k, f) ?G) n =
          (if contributors of' (xs @ [x]) n = [] then None
           else Some (folderOf n (contributors of' (xs @ [x]) n)))"
        unfolding s contributors_snoc c using False2
        by (simp add: update_conv' m folderOf_snoc)
      from d' m' show ?thesis unfolding g by blast
    qed
  qed
qed

lemma folders_entries:
  "(n, F) \<in> set (fold (folderStep of') xs []) \<longleftrightarrow>
     contributors of' xs n \<noteq> [] \<and> F = folderOf n (contributors of' xs n)"
proof -
  let ?G = "fold (folderStep of') xs []"
  have d: "distinct (map fst ?G)" using folders_fold [of of' xs] by blast
  have m: "map_of ?G n =
      (if contributors of' xs n = [] then None else Some (folderOf n (contributors of' xs n)))"
    using folders_fold [of of' xs] by blast
  have "(n, F) \<in> set ?G \<longleftrightarrow> map_of ?G n = Some F"
    using d by (rule map_of_eq_Some_iff [symmetric])
  then show ?thesis unfolding m by auto
qed

lemma getImmediateChildFolders_map:
  "getImmediateChildFolders c of' = map snd (fold (folderStep of') (children c) [])"
  by (simp add: getImmediateChildFolders_def sortFolders_def sort_key_const)

lemma folders_keys:
  "map key (getImmediateChildFolders c of') = map fst (fold (folderStep of') (children c) [])"
proof -
  have "map (key \<circ> snd) (fold (folderStep of') (children c) []) =
      map fst (fold (folderStep of') (children c) [])"
  proof (rule map_cong [OF refl])
    fix x assume x: "x \<in> set (fold (folderStep of') (children c) [])"
    obtain n F where nf: "x = (n, F)" by (cases x)
    with x have "F = folderOf n (contributors of' (children c) n)"
      by (simp add: folders_entries)
    then have "key F = n" by (simp add: folderOf_def)
    then show "(key \<circ> snd) x = fst x" unfolding nf by simp
  qed
  then show ?thesis by (simp add: getImmediateChildFolders_map)
qed

lemma folders_member:
  "F \<in> set (getImmediateChildFolders c of') \<longleftrightarrow>
     contributors of' (children c) (key F) \<noteq> [] \<and>
     F = folderOf (key F) (contributors of' (children c) (key F))"
proof
  assume "F \<in> set (getImmediateChildFolders c of')"
  then obtain n where n: "(n, F) \<in> set (fold (folderStep of') (children c) [])"
    unfolding getImmediateChildFolders_map by auto
  then have e: "contributors of' (children c) n \<noteq> [] \<and>
      F = folderOf n (contributors of' (children c) n)"
    by (simp add: folders_entries)
  then have "key F = n" by (simp add: folderOf_def)
  with e show "contributors of' (children c) (key F) \<noteq> [] \<and>
     F = folderOf (key F) (contributors of' (children c) (key F))" by simp
next
  assume "contributors of' (children c) (key F) \<noteq> [] \<and>
     F = folderOf (key F) (contributors of' (children c) (key F))"
  then have "(key F, F) \<in> set (fold (folderStep of') (children c) [])"
    by (simp add: folders_entries)
  then show "F \<in> set (getImmediateChildFolders c of')"
    unfolding getImmediateChildFolders_map by force
qed

text \<open>
  C10. For every argument \<open>of\<close>, \<open>getImmediateChildFolders(of)\<close> returns one folder for
  each first segment of what is left of a cached child key after \<open>of\<close> is stripped from
  it, over the keys that start with \<open>of\<close> as a raw string and differ from it; the
  folder's size is the sum of the sizes of those children and its \<open>lastModified\<close> their
  maximum. A key that extends \<open>of\<close> without a separator counts too: the key \<open>ab/x\<close>
  with \<open>of = "a"\<close> gives the folder \<open>b\<close>.
\<close>

theorem getImmediateChildFolders_groups:
  "distinct (map key (getImmediateChildFolders c of')) \<and>
   key ` set (getImmediateChildFolders c of') = {n. contributors of' (children c) n \<noteq> []} \<and>
   (\<forall>F \<in> set (getImmediateChildFolders c of').
      contributors of' (children c) (key F) \<noteq> [] \<and>
      size_bytes F = sum_list (map (size_bytes \<circ> snd) (contributors of' (children c) (key F))) \<and>
      lastModified F =
        Max (set (map (lastModified \<circ> snd) (contributors of' (children c) (key F))))) \<and>
   (\<forall>k f. (k, f) \<in> set (children c) \<and> startsWith k of' \<and> k \<noteq> of' \<longrightarrow>
      hd (split CHR ''/'' (drop (length of') k)) \<in> key ` set (getImmediateChildFolders c of')) \<and>
   (children c = [(''ab/x'', f0)] \<longrightarrow>
      getImmediateChildFolders c ''a'' =
        [\<lparr>key = ''b'', lastModified = lastModified f0, size_bytes = size_bytes f0\<rparr>])"
proof (intro conjI)
  show "distinct (map key (getImmediateChildFolders c of'))"
    unfolding folders_keys using folders_fold [of of' "children c"] by blast
  show keys: "key ` set (getImmediateChildFolders c of') =
      {n. contributors of' (children c) n \<noteq> []}"
  proof (intro set_eqI iffI)
    fix n assume "n \<in> key ` set (getImmediateChildFolders c of')"
    then obtain F where "F \<in> set (getImmediateChildFolders c of')" "n = key F" by auto
    then show "n \<in> {n. contributors of' (children c) n \<noteq> []}"
      by (simp add: folders_member)
  next
    fix n assume "n \<in> {n. contributors of' (children c) n \<noteq> []}"
    then have ne: "contributors of' (children c) n \<noteq> []" by simp
    let ?F = "folderOf n (contributors of' (children c) n)"
    have k: "key ?F = n" by (simp add: folderOf_def)
    have "?F \<in> set (getImmediateChildFolders c of')"
      unfolding folders_member k using ne by simp
    with k show "n \<in> key ` set (getImmediateChildFolders c of')" by force
  qed
  show "\<forall>F \<in> set (getImmediateChildFolders c of').
      contributors of' (children c) (key F) \<noteq> [] \<and>
      size_bytes F = sum_list (map (size_bytes \<circ> snd) (contributors of' (children c) (key F))) \<and>
      lastModified F =
        Max (set (map (lastModified \<circ> snd) (contributors of' (children c) (key F))))"
  proof
    fix F assume "F \<in> set (getImmediateChildFolders c of')"
    then have m: "contributors of' (children c) (key F) \<noteq> [] \<and>
        F = folderOf (key F) (contributors of' (children c) (key F))"
      by (simp add: folders_member)
    then have "size_bytes F =
        size_bytes (folderOf (key F) (contributors of' (children c) (key F)))"
      and "lastModified F =
        lastModified (folderOf (key F) (contributors of' (children c) (key F)))"
      by simp_all
    with m show "contributors of' (children c) (key F) \<noteq> [] \<and>
      size_bytes F = sum_list (map (size_bytes \<circ> snd) (contributors of' (children c) (key F))) \<and>
      lastModified F =
        Max (set (map (lastModified \<circ> snd) (contributors of' (children c) (key F))))"
      by (simp add: folderOf_def)
  qed
  show "\<forall>k f. (k, f) \<in> set (children c) \<and> startsWith k of' \<and> k \<noteq> of' \<longrightarrow>
      hd (split CHR ''/'' (drop (length of') k)) \<in> key ` set (getImmediateChildFolders c of')"
  proof (intro allI impI)
    fix k f assume a: "(k, f) \<in> set (children c) \<and> startsWith k of' \<and> k \<noteq> of'"
    then have "(k, f) \<in> set (contributors of' (children c)
        (hd (split CHR ''/'' (drop (length of') k))))"
      by (simp add: contributors_def)
    then have "contributors of' (children c) (hd (split CHR ''/'' (drop (length of') k))) \<noteq> []"
      by auto
    then show "hd (split CHR ''/'' (drop (length of') k)) \<in>
        key ` set (getImmediateChildFolders c of')"
      unfolding keys by simp
  qed
  show "children c = [(''ab/x'', f0)] \<longrightarrow>
      getImmediateChildFolders c ''a'' =
        [\<lparr>key = ''b'', lastModified = lastModified f0, size_bytes = size_bytes f0\<rparr>]"
    by (simp add: getImmediateChildFolders_map folderStep_def startsWith_def Let_def)
qed

theorem getImmediateChildFolders_groups_witness:
  "getImmediateChildFolders folderCursor [] =
     [\<lparr>key = ''a'', lastModified = 2000, size_bytes = 8\<rparr>,
      \<lparr>key = ''ab'', lastModified = 1500, size_bytes = 7\<rparr>] \<and>
   distinct (map key (getImmediateChildFolders folderCursor [])) \<and>
   contributors [] (children folderCursor) ''a'' =
     [(''a/x'', \<lparr>key = ''a/x'', lastModified = 1000, size_bytes = 3\<rparr>),
      (''a/y'', \<lparr>key = ''a/y'', lastModified = 2000, size_bytes = 5\<rparr>)] \<and>
   size_bytes \<lparr>key = ''a'', lastModified = 2000, size_bytes = 8\<rparr> =
     sum_list (map (size_bytes \<circ> snd) (contributors [] (children folderCursor) ''a'')) \<and>
   lastModified \<lparr>key = ''a'', lastModified = 2000, size_bytes = 8\<rparr> =
     Max (set (map (lastModified \<circ> snd) (contributors [] (children folderCursor) ''a''))) \<and>
   (''ab/x'', \<lparr>key = ''ab/x'', lastModified = 1500, size_bytes = 7\<rparr>) \<in> set (children folderCursor) \<and>
   startsWith ''ab/x'' ''a'' \<and> ''ab/x'' \<noteq> ''a'' \<and>
   ''b'' \<in> key ` set (getImmediateChildFolders folderCursor ''a'') \<and>
   getImmediateChildFolders folderCursor ''a'' =
     [\<lparr>key = [], lastModified = 2000, size_bytes = 8\<rparr>,
      \<lparr>key = ''b'', lastModified = 1500, size_bytes = 7\<rparr>] \<and>
   getImmediateChildFolders (folderCursor\<lparr>children := [(''ab/x'', fileV1)]\<rparr>) ''a'' =
     [\<lparr>key = ''b'', lastModified = lastModified fileV1, size_bytes = size_bytes fileV1\<rparr>]"
proof -
  have r0: "getImmediateChildFolders folderCursor [] =
     [\<lparr>key = ''a'', lastModified = 2000, size_bytes = 8\<rparr>,
      \<lparr>key = ''ab'', lastModified = 1500, size_bytes = 7\<rparr>]"
    by (simp add: getImmediateChildFolders_map folderCursor_def folderStep_def startsWith_def
        Let_def)
  have ra: "getImmediateChildFolders folderCursor ''a'' =
     [\<lparr>key = [], lastModified = 2000, size_bytes = 8\<rparr>,
      \<lparr>key = ''b'', lastModified = 1500, size_bytes = 7\<rparr>]"
    by (simp add: getImmediateChildFolders_map folderCursor_def folderStep_def startsWith_def
        Let_def)
  have co: "contributors [] (children folderCursor) ''a'' =
     [(''a/x'', \<lparr>key = ''a/x'', lastModified = 1000, size_bytes = 3\<rparr>),
      (''a/y'', \<lparr>key = ''a/y'', lastModified = 2000, size_bytes = 5\<rparr>)]"
    by (simp add: contributors_def folderCursor_def startsWith_def)
  note t = getImmediateChildFolders_groups [of folderCursor "[]" fileV1]
  from t have c1: "distinct (map key (getImmediateChildFolders folderCursor []))" by blast
  have mem: "\<lparr>key = ''a'', lastModified = 2000, size_bytes = 8\<rparr> \<in>
      set (getImmediateChildFolders folderCursor [])"
    unfolding r0 by simp
  from t have "\<forall>F \<in> set (getImmediateChildFolders folderCursor []).
      contributors [] (children folderCursor) (key F) \<noteq> [] \<and>
      size_bytes F =
        sum_list (map (size_bytes \<circ> snd) (contributors [] (children folderCursor) (key F))) \<and>
      lastModified F =
        Max (set (map (lastModified \<circ> snd) (contributors [] (children folderCursor) (key F))))"
    by blast
  from this [rule_format, OF mem]
  have c2: "size_bytes \<lparr>key = ''a'', lastModified = 2000, size_bytes = 8\<rparr> =
     sum_list (map (size_bytes \<circ> snd) (contributors [] (children folderCursor) ''a''))"
    and c3: "lastModified \<lparr>key = ''a'', lastModified = 2000, size_bytes = 8\<rparr> =
     Max (set (map (lastModified \<circ> snd) (contributors [] (children folderCursor) ''a'')))"
    by simp_all
  have h: "(''ab/x'', \<lparr>key = ''ab/x'', lastModified = 1500, size_bytes = 7\<rparr>) \<in>
      set (children folderCursor) \<and> startsWith ''ab/x'' ''a'' \<and> ''ab/x'' \<noteq> ''a''"
    by (simp add: folderCursor_def startsWith_def)
  note t2 = getImmediateChildFolders_groups [of folderCursor "''a''" fileV1]
  from t2 h have "hd (split CHR ''/'' (drop (length ''a'') ''ab/x'')) \<in>
      key ` set (getImmediateChildFolders folderCursor ''a'')"
    by blast
  then have c4: "''b'' \<in> key ` set (getImmediateChildFolders folderCursor ''a'')" by simp
  have ch: "children (folderCursor\<lparr>children := [(''ab/x'', fileV1)]\<rparr>) = [(''ab/x'', fileV1)]"
    by simp
  from getImmediateChildFolders_groups
    [of "folderCursor\<lparr>children := [(''ab/x'', fileV1)]\<rparr>" "''a''" fileV1] ch
  have c5: "getImmediateChildFolders (folderCursor\<lparr>children := [(''ab/x'', fileV1)]\<rparr>) ''a'' =
     [\<lparr>key = ''b'', lastModified = lastModified fileV1, size_bytes = size_bytes fileV1\<rparr>]"
    by blast
  from r0 c1 co c2 c3 h c4 ra c5 show ?thesis by blast
qed

section \<open>Facts about re-pointing\<close>

lemma setPath_same: "setPath (path (cursor w)) w = w"
  by (simp add: setPath_def)

lemma setIndex_same: "setIndex (index (cursor w)) w = w"
  by (simp add: setIndex_def)

lemma setIndex_cursor:
  "newIdx \<noteq> index (cursor w) \<Longrightarrow>
   cursor (setIndex newIdx w) =
     (cursor w)\<lparr>index := newIdx,
       metadata := getMetadata (heap w newIdx) (path (cursor w)),
       children := getChildren (heap w newIdx) (path (cursor w))\<rparr>"
  by (simp add: setIndex_def Let_def getMetadata_def getChildren_def)

lemma setPath_cursor:
  "newPath \<noteq> path (cursor w) \<Longrightarrow>
   path (cursor (setPath newPath w)) = newPath \<and>
   metadata (cursor (setPath newPath w)) = getMetadata (heap w (index (cursor w))) newPath \<and>
   children (cursor (setPath newPath w)) = getChildren (heap w (index (cursor w))) newPath"
  by (simp add: setPath_def Let_def getMetadata_def getChildren_def
      removeMetadataListener_def removeChildrenListener_def)

lemma setIndex_documents:
  "jsonFiles (cursor (setIndex newIdx w)) = jsonFiles (cursor w) \<and>
   effects (setIndex newIdx w) = effects w"
  by (simp add: setIndex_def Let_def)

lemma subjectWorld_setIndex:
  "cursor (setIndex 1 subjectWorld) =
     \<lparr>self = 7, index = 1, path = ''s'', metadata = None, children = [],
      jsonFiles = [(''_subject.json'', subjectDoc)],
      cursorLoading = False, cursorNetworkErrors = []\<rparr>"
  by (simp add: setIndex_def subjectWorld_def Let_def getMetadata_def getChildren_def
      newIndex_def removeMetadataListener_def removeChildrenListener_def removeListener_def)

text \<open>
  C3. Both \<open>setPath\<close> and \<open>setIndex\<close> do nothing for the current value, and otherwise
  unregister, swap the field, re-derive metadata and children and re-register. But
  only \<open>setPath\<close> tells the owned documents: \<open>setIndex\<close> leaves every document as it was
  and requests no download. On a cursor at \<open>s\<close> whose document \<open>_subject.json\<close> holds
  \<open>massKg = 70\<close>, \<open>setIndex\<close> to an empty index leaves the cursor without children and the
  document with its old mapping, where \<open>pathChanged\<close> would have cleared it, as it does
  after \<open>setPath\<close> to a path without that file.
\<close>

theorem setIndex_keeps_documents:
  "jsonFiles (cursor (setIndex newIdx w)) = jsonFiles (cursor w) \<and>
   effects (setIndex newIdx w) = effects w \<and>
   children (cursor (setIndex 1 subjectWorld)) = [] \<and>
   jsonFiles (cursor (setIndex 1 subjectWorld)) = [(''_subject.json'', subjectDoc)] \<and>
   valueMap subjectDoc = [(''massKg'', Num 70)] \<and>
   effects (setIndex 1 subjectWorld) = [] \<and>
   pathChangedAll (cursor (setIndex 1 subjectWorld)) (jsonFiles (cursor (setIndex 1 subjectWorld))) =
     ([(''_subject.json'', subjectDoc\<lparr>valueMap := []\<rparr>)], []) \<and>
   children (cursor (setPath ''t'' subjectWorld)) = [] \<and>
   jsonFiles (cursor (setPath ''t'' subjectWorld)) =
     [(''_subject.json'', subjectDoc\<lparr>valueMap := []\<rparr>)]"
proof (intro conjI)
  show "jsonFiles (cursor (setIndex newIdx w)) = jsonFiles (cursor w)"
    using setIndex_documents by blast
  show "effects (setIndex newIdx w) = effects w"
    using setIndex_documents by blast
  show "children (cursor (setIndex 1 subjectWorld)) = []"
    unfolding subjectWorld_setIndex by simp
  show "jsonFiles (cursor (setIndex 1 subjectWorld)) = [(''_subject.json'', subjectDoc)]"
    unfolding subjectWorld_setIndex by simp
  show "valueMap subjectDoc = [(''massKg'', Num 70)]"
    by (simp add: subjectDoc_def)
  show "effects (setIndex 1 subjectWorld) = []"
    using setIndex_documents [of 1 subjectWorld] by (simp add: subjectWorld_def)
  show "pathChangedAll (cursor (setIndex 1 subjectWorld))
      (jsonFiles (cursor (setIndex 1 subjectWorld))) =
     ([(''_subject.json'', subjectDoc\<lparr>valueMap := []\<rparr>)], [])"
    unfolding subjectWorld_setIndex
    by (simp add: pathChangedAll_def pathChanged_def fileExist_def
        getExists_def getChildMetadata_def)
  show "children (cursor (setPath ''t'' subjectWorld)) = []"
    by (simp add: setPath_def subjectWorld_def Let_def getChildren_def newIndex_def
        removeMetadataListener_def removeChildrenListener_def startsWith_def endsWith_def
        suffix_to_prefix)
  show "jsonFiles (cursor (setPath ''t'' subjectWorld)) =
     [(''_subject.json'', subjectDoc\<lparr>valueMap := []\<rparr>)]"
    by (simp add: setPath_def subjectWorld_def Let_def getChildren_def getMetadata_def
        newIndex_def removeMetadataListener_def removeChildrenListener_def startsWith_def
        endsWith_def suffix_to_prefix pathChangedAll_def pathChanged_def fileExist_def
        getExists_def getChildMetadata_def)
qed

section \<open>Facts about the network operations\<close>

lemma setNetworkError_frame:
  "files (setNetworkError collate k v idx) = files idx"
  "globalPrefix (setNetworkError collate k v idx) = globalPrefix idx"
  "networkErrors (setNetworkError collate k v idx) = AList.update k v (networkErrors idx)"
  by (simp_all add: setNetworkError_def Let_def)

lemma clearNetworkError_frame:
  "files (clearNetworkError collate k idx) = files idx"
  "globalPrefix (clearNetworkError collate k idx) = globalPrefix idx"
  "networkErrors (clearNetworkError collate k idx) = AList.delete k (networkErrors idx)"
  by (simp_all add: clearNetworkError_def Let_def)

lemma setIsLoading_frame:
  "files (setIsLoading b idx) = files idx"
  "networkErrors (setIsLoading b idx) = networkErrors idx"
  by (simp_all add: setIsLoading_def)

lemma upload_files: "files (fst (upload collate pth blobSize time put published idx)) = files idx"
  by (simp add: upload_def Let_def setNetworkError_frame clearNetworkError_frame
      split: putOutcome.splits)

lemma upload_failed:
  assumes "put = PutThrows e \<or> put = PutRejected e"
  shows "upload collate pth blobSize time put published idx =
    (setNetworkError collate ''Upload'' ''We got an error trying to upload a file!'' idx, [], Rejects e)"
  using assms by (auto simp: upload_def Let_def)

lemma upload_fulfilled:
  "fst (snd (upload collate pth blobSize time (PutFulfilled cc) published idx)) =
     (if cc then [(makeTopicPubSubSafe (''/UPDATE/'' @ globalPrefix idx @ pth),
                   UpdatePayload \<lparr>key = globalPrefix idx @ pth, lastModified = time,
                                  size_bytes = blobSize\<rparr>)] else []) @
     [(makeTopicPubSubSafe (''/UPDATE/'' @ globalPrefix idx @ pth),
       UpdatePayload \<lparr>key = globalPrefix idx @ pth, lastModified = time, size_bytes = blobSize\<rparr>)]"
  by (simp add: upload_def Let_def)

lemma upload_globalPrefix:
  "globalPrefix (fst (upload collate pth blobSize time put published idx)) = globalPrefix idx"
  by (simp add: upload_def Let_def setNetworkError_frame clearNetworkError_frame
      split: putOutcome.splits)

lemma fullRefresh_resolves: "snd (fullRefresh collate listed idx) = Resolves"
  by (simp add: fullRefresh_def Let_def split: listOutcome.splits)

text \<open>
  C5. When the store's put throws or is rejected, \<open>upload\<close> records the error under
  \<open>Upload\<close> and rejects with the store's error; when the store's remove is rejected (or
  the publish after it), \<open>delete\<close> records the error under \<open>Delete\<close> and rejects with
  it; when the store's list is rejected, \<open>fullRefresh\<close> records the error under
  \<open>FullRefresh\<close>, and its promise resolves, as it does in every case.
\<close>

theorem error_propagation:
  "(put = PutThrows e \<or> put = PutRejected e \<longrightarrow>
      map_of (networkErrors (fst (upload collate pth blobSize time put published idx))) ''Upload'' =
        Some ''We got an error trying to upload a file!'' \<and>
      snd (snd (upload collate pth blobSize time put published idx)) = Rejects e) \<and>
   map_of (networkErrors (fst (delete collate pth (Rejected e) pub idx))) ''Delete'' =
     Some ''We got an error trying to delete a file!'' \<and>
   snd (snd (delete collate pth (Rejected e) pub idx)) = Rejects e \<and>
   map_of (networkErrors (fst (delete collate pth Fulfilled (Rejected e) idx))) ''Delete'' =
     Some ''We got an error trying to delete a file!'' \<and>
   snd (snd (delete collate pth Fulfilled (Rejected e) idx)) = Rejects e \<and>
   map_of (networkErrors (fst (fullRefresh collate (ListRejected e) idx))) ''FullRefresh'' =
     Some ''We got an error trying to load the files! Attempting to reconnect...'' \<and>
   snd (fullRefresh collate (ListRejected e) idx) = Resolves \<and>
   snd (fullRefresh collate listed idx) = Resolves"
proof (intro conjI impI)
  assume a: "put = PutThrows e \<or> put = PutRejected e"
  note u = upload_failed [OF a, of collate pth blobSize time published idx]
  show "map_of (networkErrors (fst (upload collate pth blobSize time put published idx))) ''Upload'' =
        Some ''We got an error trying to upload a file!''"
    unfolding u by (simp add: setNetworkError_frame update_conv')
  show "snd (snd (upload collate pth blobSize time put published idx)) = Rejects e"
    unfolding u by simp
next
  show "map_of (networkErrors (fst (delete collate pth (Rejected e) pub idx))) ''Delete'' =
     Some ''We got an error trying to delete a file!''"
    by (simp add: delete_def Let_def setNetworkError_frame update_conv')
  show "snd (snd (delete collate pth (Rejected e) pub idx)) = Rejects e"
    by (simp add: delete_def Let_def)
  show "map_of (networkErrors (fst (delete collate pth Fulfilled (Rejected e) idx))) ''Delete'' =
     Some ''We got an error trying to delete a file!''"
    by (simp add: delete_def Let_def setNetworkError_frame update_conv')
  show "snd (snd (delete collate pth Fulfilled (Rejected e) idx)) = Rejects e"
    by (simp add: delete_def Let_def)
  show "map_of (networkErrors (fst (fullRefresh collate (ListRejected e) idx))) ''FullRefresh'' =
     Some ''We got an error trying to load the files! Attempting to reconnect...''"
    by (simp add: fullRefresh_def Let_def setNetworkError_frame update_conv')
  show "snd (fullRefresh collate (ListRejected e) idx) = Resolves"
    by (rule fullRefresh_resolves)
  show "snd (fullRefresh collate listed idx) = Resolves"
    by (rule fullRefresh_resolves)
qed

theorem error_propagation_witness:
  "upload codeUnitOrder ''a/x.txt'' 10 1000 (PutRejected ''boom'') True publicIndex =
     (publicIndex\<lparr>networkErrors := [(''Upload'', ''We got an error trying to upload a file!'')],
        calls := [NetworkErrorCall 3 [''We got an error trying to upload a file!'']]\<rparr>,
      [], Rejects ''boom'') \<and>
   map_of (networkErrors (fst (upload codeUnitOrder ''a/x.txt'' 10 1000 (PutRejected ''boom'') True publicIndex)))
     ''Upload'' = Some ''We got an error trying to upload a file!'' \<and>
   snd (snd (upload codeUnitOrder ''a/x.txt'' 10 1000 (PutRejected ''boom'') True publicIndex)) = Rejects ''boom'' \<and>
   snd (snd (upload codeUnitOrder ''a/x.txt'' 10 1000 (PutThrows ''boom'') True publicIndex)) = Rejects ''boom'' \<and>
   snd (snd (delete codeUnitOrder ''a/x.txt'' (Rejected ''boom'') Fulfilled publicIndex)) = Rejects ''boom'' \<and>
   map_of (networkErrors (fst (fullRefresh codeUnitOrder (ListRejected ''boom'') publicIndex))) ''FullRefresh'' =
     Some ''We got an error trying to load the files! Attempting to reconnect...'' \<and>
   snd (fullRefresh codeUnitOrder (ListRejected ''boom'') publicIndex) = Resolves"
proof -
  have e: "upload codeUnitOrder ''a/x.txt'' 10 1000 (PutRejected ''boom'') True publicIndex =
     (publicIndex\<lparr>networkErrors := [(''Upload'', ''We got an error trying to upload a file!'')],
        calls := [NetworkErrorCall 3 [''We got an error trying to upload a file!'']]\<rparr>,
      [], Rejects ''boom'')"
    by (simp add: upload_def setNetworkError_def getNetworkErrorMessages_def publicIndex_def
        codeUnitOrder_def
        newIndex_def Let_def)
  have h1: "PutRejected ''boom'' = PutThrows ''boom'' \<or> PutRejected ''boom'' = PutRejected ''boom''"
    by simp
  have h2: "PutThrows ''boom'' = PutThrows ''boom'' \<or> PutThrows ''boom'' = PutRejected ''boom''"
    by simp
  note t1 = error_propagation [of "PutRejected ''boom''" "''boom''" codeUnitOrder "''a/x.txt''" 10 1000 True
      publicIndex Fulfilled "ListRejected ''boom''"]
  note t2 = error_propagation [of "PutThrows ''boom''" "''boom''" codeUnitOrder "''a/x.txt''" 10 1000 True
      publicIndex Fulfilled "ListRejected ''boom''"]
  from t1 h1 have c1: "map_of (networkErrors (fst (upload codeUnitOrder ''a/x.txt'' 10 1000 (PutRejected ''boom'') True publicIndex)))
     ''Upload'' = Some ''We got an error trying to upload a file!'' \<and>
   snd (snd (upload codeUnitOrder ''a/x.txt'' 10 1000 (PutRejected ''boom'') True publicIndex)) = Rejects ''boom''"
    by blast
  from t2 h2 have c2:
    "snd (snd (upload codeUnitOrder ''a/x.txt'' 10 1000 (PutThrows ''boom'') True publicIndex)) = Rejects ''boom''"
    by blast
  from t1 have c3:
    "snd (snd (delete codeUnitOrder ''a/x.txt'' (Rejected ''boom'') Fulfilled publicIndex)) = Rejects ''boom'' \<and>
     map_of (networkErrors (fst (fullRefresh codeUnitOrder (ListRejected ''boom'') publicIndex))) ''FullRefresh'' =
       Some ''We got an error trying to load the files! Attempting to reconnect...'' \<and>
     snd (fullRefresh codeUnitOrder (ListRejected ''boom'') publicIndex) = Resolves"
    by blast
  from e c1 c2 c3 show ?thesis by blast
qed

text \<open>
  C6. \<open>upload\<close> leaves the file map of the index as it is, whatever the store and the
  socket answer. When the put is fulfilled it publishes, once or twice, the update event
  with the prefixed key, the time and the size on the truncated \<open>/UPDATE/\<close> topic, and
  nothing when the put fails. The file becomes visible when that message comes back
  through the subscription: with no record stored for the path, the handler stores the
  record under the path without the prefix.
\<close>

theorem upload_leaves_files:
  "files (fst (upload collate pth blobSize time put published idx)) = files idx \<and>
   (\<forall>cc. put = PutFulfilled cc \<longrightarrow>
      fst (snd (upload collate pth blobSize time put published idx)) \<noteq> [] \<and>
      set (fst (snd (upload collate pth blobSize time put published idx))) =
        {(makeTopicPubSubSafe (''/UPDATE/'' @ globalPrefix idx @ pth),
          UpdatePayload \<lparr>key = globalPrefix idx @ pth, lastModified = time,
                         size_bytes = blobSize\<rparr>)}) \<and>
   (\<forall>e. put = PutThrows e \<or> put = PutRejected e \<longrightarrow>
      fst (snd (upload collate pth blobSize time put published idx)) = []) \<and>
   (map_of (files idx) pth = None \<longrightarrow>
      map_of (files (onUpdateMessage
          \<lparr>key = globalPrefix idx @ pth, lastModified = time, size_bytes = blobSize\<rparr>
          (fst (upload collate pth blobSize time put published idx)))) pth =
        Some \<lparr>key = pth, lastModified = time, size_bytes = blobSize\<rparr>)"
proof (intro conjI allI impI)
  show "files (fst (upload collate pth blobSize time put published idx)) = files idx"
    by (rule upload_files)
next
  fix cc assume p: "put = PutFulfilled cc"
  show "fst (snd (upload collate pth blobSize time put published idx)) \<noteq> []"
    unfolding p upload_fulfilled by simp
  show "set (fst (snd (upload collate pth blobSize time put published idx))) =
        {(makeTopicPubSubSafe (''/UPDATE/'' @ globalPrefix idx @ pth),
          UpdatePayload \<lparr>key = globalPrefix idx @ pth, lastModified = time,
                         size_bytes = blobSize\<rparr>)}"
    unfolding p upload_fulfilled by (cases cc) simp_all
next
  fix e assume "put = PutThrows e \<or> put = PutRejected e"
  then show "fst (snd (upload collate pth blobSize time put published idx)) = []"
    by (simp add: upload_failed)
next
  assume n: "map_of (files idx) pth = None"
  let ?idx' = "fst (upload collate pth blobSize time put published idx)"
  let ?f = "\<lparr>key = pth, lastModified = time, size_bytes = blobSize\<rparr>"
  have m: "onUpdateMessage
      \<lparr>key = globalPrefix idx @ pth, lastModified = time, size_bytes = blobSize\<rparr> ?idx' =
      updateFileInIndex ?f ?idx'"
    by (simp add: onUpdateMessage_def onReceivedPubSubUpdate_def upload_globalPrefix)
  have "accepts ?f ?idx'" using n by (simp add: accepts_def upload_files)
  then have "files (updateFileInIndex ?f ?idx') = AList.update pth ?f (files ?idx')"
    by (simp add: files_updateFileInIndex)
  then show "map_of (files (onUpdateMessage
          \<lparr>key = globalPrefix idx @ pth, lastModified = time, size_bytes = blobSize\<rparr> ?idx')) pth =
        Some ?f"
    unfolding m by (simp add: update_conv')
qed

theorem upload_leaves_files_witness:
  "files (fst (upload codeUnitOrder ''a/x.txt'' 10 1000 (PutFulfilled False) True publicIndex)) = [] \<and>
   fst (snd (upload codeUnitOrder ''a/x.txt'' 10 1000 (PutFulfilled False) True publicIndex)) =
     [(''/UPDATE/public/a/x.txt'',
       UpdatePayload \<lparr>key = ''public/a/x.txt'', lastModified = 1000, size_bytes = 10\<rparr>)] \<and>
   fst (snd (upload codeUnitOrder ''a/x.txt'' 10 1000 (PutRejected ''boom'') True publicIndex)) = [] \<and>
   map_of (files publicIndex) ''a/x.txt'' = None \<and>
   map_of (files (onUpdateMessage
       \<lparr>key = ''public/a/x.txt'', lastModified = 1000, size_bytes = 10\<rparr>
       (fst (upload codeUnitOrder ''a/x.txt'' 10 1000 (PutFulfilled False) True publicIndex)))) ''a/x.txt'' =
     Some \<lparr>key = ''a/x.txt'', lastModified = 1000, size_bytes = 10\<rparr>"
proof -
  have g: "globalPrefix publicIndex = ''public/''" "files publicIndex = []"
    by (simp_all add: publicIndex_def newIndex_def)
  have n: "map_of (files publicIndex) ''a/x.txt'' = None" unfolding g by simp
  have tp: "makeTopicPubSubSafe (''/UPDATE/'' @ ''public/'' @ ''a/x.txt'') = ''/UPDATE/public/a/x.txt''"
    by (simp add: makeTopicPubSubSafe_def MAX_TOPIC_LEN_def)
  note t = upload_leaves_files [of codeUnitOrder "''a/x.txt''" 10 1000 "PutFulfilled False" True publicIndex]
  from t have c1: "files (fst (upload codeUnitOrder ''a/x.txt'' 10 1000 (PutFulfilled False) True publicIndex)) = []"
    unfolding g by blast
  from t have "set (fst (snd (upload codeUnitOrder ''a/x.txt'' 10 1000 (PutFulfilled False) True publicIndex))) =
        {(makeTopicPubSubSafe (''/UPDATE/'' @ globalPrefix publicIndex @ ''a/x.txt''),
          UpdatePayload \<lparr>key = globalPrefix publicIndex @ ''a/x.txt'', lastModified = 1000,
                         size_bytes = 10\<rparr>)}"
    by blast
  then have s: "set (fst (snd (upload codeUnitOrder ''a/x.txt'' 10 1000 (PutFulfilled False) True publicIndex))) =
        {(''/UPDATE/public/a/x.txt'',
          UpdatePayload \<lparr>key = ''public/a/x.txt'', lastModified = 1000, size_bytes = 10\<rparr>)}"
    unfolding g tp by simp
  have l: "length (fst (snd (upload codeUnitOrder ''a/x.txt'' 10 1000 (PutFulfilled False) True publicIndex))) = 1"
    by (simp add: upload_fulfilled)
  from s l have c2: "fst (snd (upload codeUnitOrder ''a/x.txt'' 10 1000 (PutFulfilled False) True publicIndex)) =
     [(''/UPDATE/public/a/x.txt'',
       UpdatePayload \<lparr>key = ''public/a/x.txt'', lastModified = 1000, size_bytes = 10\<rparr>)]"
    by (cases "fst (snd (upload codeUnitOrder ''a/x.txt'' 10 1000 (PutFulfilled False) True publicIndex))") auto
  from upload_leaves_files [of codeUnitOrder "''a/x.txt''" 10 1000 "PutRejected ''boom''" True publicIndex]
  have c3: "fst (snd (upload codeUnitOrder ''a/x.txt'' 10 1000 (PutRejected ''boom'') True publicIndex)) = []"
    by blast
  from t n have "map_of (files (onUpdateMessage
          \<lparr>key = globalPrefix publicIndex @ ''a/x.txt'', lastModified = 1000, size_bytes = 10\<rparr>
          (fst (upload codeUnitOrder ''a/x.txt'' 10 1000 (PutFulfilled False) True publicIndex)))) ''a/x.txt'' =
        Some \<lparr>key = ''a/x.txt'', lastModified = 1000, size_bytes = 10\<rparr>"
    by blast
  then have c4: "map_of (files (onUpdateMessage
       \<lparr>key = ''public/a/x.txt'', lastModified = 1000, size_bytes = 10\<rparr>
       (fst (upload codeUnitOrder ''a/x.txt'' 10 1000 (PutFulfilled False) True publicIndex)))) ''a/x.txt'' =
     Some \<lparr>key = ''a/x.txt'', lastModified = 1000, size_bytes = 10\<rparr>"
    unfolding g by simp
  from c1 c2 c3 n c4 show ?thesis by blast
qed

end
